theory Spec2Isabelle
  imports Complex_Main "HOL-Library.AList" "HOL-Library.Sublist"
begin

section \<open>Python values and exceptions\<close>

text \<open>
  The program is \<^verbatim>\<open>cli_analyzer.py\<close>. A Python \<^verbatim>\<open>str\<close> is modelled as a
  \<^typ>\<open>string\<close> in which every \<^typ>\<open>char\<close> stands for one code point in the range
  U+0000 .. U+00FF, so \<^const>\<open>length\<close> is Python's \<^verbatim>\<open>len\<close>. The Chunker is
  polymorphic in the element type and does not depend on this choice.

  Every exception the modelled code can meet is an instance of \<^verbatim>\<open>Exception\<close>; the
  argument of each constructor is the text that \<^verbatim>\<open>str(e)\<close> returns.
\<close>

datatype exn =
    ValueError string
  | FileNotFoundError string
  | OSError string
  | JSONDecodeError string
  | KeyError string
  | TypeError string
  | AttributeError string
  | ClientError string

fun py_str :: "exn \<Rightarrow> string" where
  "py_str (ValueError m) = m"
| "py_str (FileNotFoundError m) = m"
| "py_str (OSError m) = m"
| "py_str (JSONDecodeError m) = m"
| "py_str (KeyError m) = m"
| "py_str (TypeError m) = m"
| "py_str (AttributeError m) = m"
| "py_str (ClientError m) = m"

section \<open>Chunker: \<^verbatim>\<open>chunk_text\<close>\<close>

text \<open>
  \<^verbatim>\<open>range(0, stop, step)\<close> for \<open>stop = len(text)\<close>, which is never negative: a zero step
  raises \<^verbatim>\<open>ValueError\<close>, a negative step gives the empty range, a positive step counts
  \<open>0, step, 2 * step, ...\<close> below \<open>stop\<close>.
\<close>

function range_from :: "nat \<Rightarrow> nat \<Rightarrow> nat \<Rightarrow> nat list" where
  "range_from i stop step =
     (if step = 0 \<or> stop \<le> i then [] else i # range_from (i + step) stop step)"
  by pat_completeness auto
termination
  by (relation "measure (\<lambda>(i, stop, step). stop - i)") auto

declare range_from.simps [simp del]

definition py_range0 :: "nat \<Rightarrow> int \<Rightarrow> exn + nat list" where
  "py_range0 stop step =
     (if step = 0 then Inl (ValueError ''range() arg 3 must not be zero'')
      else if step < 0 then Inr []
      else Inr (range_from 0 stop (nat step)))"

text \<open>The slice \<^verbatim>\<open>xs[i:j]\<close> for indices \<open>0 \<le> i\<close> and \<open>0 \<le> j\<close>; the end is clipped.\<close>

definition py_slice :: "'a list \<Rightarrow> nat \<Rightarrow> nat \<Rightarrow> 'a list" where
  "py_slice xs i j = take (j - i) (drop i xs)"

text \<open>
  \<^verbatim>\<open>
  def chunk_text(text, max_chars=2000):
      chunks = []
      for i in range(0, len(text), max_chars):
          chunks.append(text[i:i+max_chars])
      return chunks
  \<close>
  The loop body runs only for a positive \<open>max_chars\<close>, where \<open>i + max_chars\<close> is a natural
  number.
\<close>

definition chunk_text :: "'a list \<Rightarrow> int \<Rightarrow> exn + 'a list list" where
  "chunk_text text max_chars =
     (case py_range0 (length text) max_chars of
        Inl e \<Rightarrow> Inl e
      | Inr indices \<Rightarrow>
          Inr (foldl (\<lambda>chunks i. chunks @ [py_slice text i (i + nat max_chars)]) [] indices))"

text \<open>The call \<^verbatim>\<open>chunk_text(content)\<close> of the Orchestrator uses the default size.\<close>

definition default_max_chars :: int where
  "default_max_chars = 2000"

section \<open>Strings: the \<^verbatim>\<open>str\<close> methods the program uses\<close>

text \<open>
  \<^verbatim>\<open>str.lower\<close> on U+0000 .. U+00FF: the letters A .. Z and the Latin-1 capitals
  U+00C0 .. U+00DE (U+00D7, the multiplication sign, is no letter) move up by 32.
\<close>

definition lower_char :: "char \<Rightarrow> char" where
  "lower_char c =
     (let n = (of_char c :: nat)
      in if (65 \<le> n \<and> n \<le> 90) \<or> (192 \<le> n \<and> n \<le> 222 \<and> n \<noteq> 215)
         then char_of (n + 32) else c)"

definition py_lower :: "string \<Rightarrow> string" where
  "py_lower s = map lower_char s"

text \<open>
  \<^verbatim>\<open>s.replace(old, new)\<close>: every occurrence of \<open>old\<close>, found from left to right without
  overlap, is replaced; the inserted text is not scanned again. For the empty \<open>old\<close>
  Python inserts \<open>new\<close> before every character and at the end.
\<close>

function py_replace :: "'a list \<Rightarrow> 'a list \<Rightarrow> 'a list \<Rightarrow> 'a list" where
  "py_replace old new [] = (if old = [] then new else [])"
| "py_replace old new (c # cs) =
     (if old = [] then new @ c # py_replace old new cs
      else if prefix old (c # cs) then new @ py_replace old new (drop (length old) (c # cs))
      else c # py_replace old new cs)"
  by pat_completeness auto
termination
  by (relation "measure (\<lambda>(old, new, s). length s)") auto

definition py_endswith :: "'a list \<Rightarrow> 'a list \<Rightarrow> bool" where
  "py_endswith s suf = suffix suf s"

text \<open>
  \<^verbatim>\<open>str.strip()\<close> removes leading and trailing whitespace; below U+0100 the whitespace
  code points of \<^verbatim>\<open>str.isspace\<close> are U+0009 .. U+000D, U+001C .. U+0020, U+0085
  and U+00A0.
\<close>

definition py_isspace :: "char \<Rightarrow> bool" where
  "py_isspace c =
     (let n = (of_char c :: nat)
      in (9 \<le> n \<and> n \<le> 13) \<or> (28 \<le> n \<and> n \<le> 32) \<or> n = 133 \<or> n = 160)"

definition py_strip :: "string \<Rightarrow> string" where
  "py_strip s = rev (dropWhile py_isspace (rev (dropWhile py_isspace s)))"

text \<open>\<^verbatim>\<open>os.path.join(a, b)\<close> on a POSIX system.\<close>

definition os_path_join :: "string \<Rightarrow> string \<Rightarrow> string" where
  "os_path_join a b =
     (if prefix ''/'' b then b
      else if a = [] \<or> last a = CHR ''/'' then a @ b
      else a @ ''/'' @ b)"

text \<open>\<^verbatim>\<open>str(n)\<close> for a natural number, and the name of a type or of an attribute between
  single quotes, as the messages of the interpreter's exceptions have them.\<close>

function show_nat :: "nat \<Rightarrow> string" where
  "show_nat n =
     (if n < 10 then [char_of (48 + n)] else show_nat (n div 10) @ [char_of (48 + n mod 10)])"
  by pat_completeness auto
termination
  by (relation "measure id") auto

declare show_nat.simps [simp del]

definition quoted :: "string \<Rightarrow> string" where
  "quoted s = [CHR 0x27] @ s @ [CHR 0x27]"

text \<open>
  \<^verbatim>\<open>repr(s)\<close> of a string, as the messages of \<^verbatim>\<open>KeyError\<close> and \<^verbatim>\<open>FileNotFoundError\<close>
  show a key or a path. The quote is the single quote, or the double quote when the string
  holds a single quote and no double quote. The quote and the backslash are escaped by a
  backslash; tab, newline and carriage return are written \<^verbatim>\<open>\t\<close>, \<^verbatim>\<open>\n\<close>, \<^verbatim>\<open>\r\<close>; every
  other code point that is not printable (below U+0100: U+0000 .. U+001F, U+007F .. U+00A0
  and U+00AD) is written \<^verbatim>\<open>\xhh\<close> with two lowercase hexadecimal digits.
\<close>

definition hex_digit :: "nat \<Rightarrow> char" where
  "hex_digit n = (if n < 10 then char_of (48 + n) else char_of (87 + n))"

definition py_isprintable :: "char \<Rightarrow> bool" where
  "py_isprintable c =
     (let n = (of_char c :: nat)
      in \<not> (n < 32 \<or> (127 \<le> n \<and> n \<le> 160) \<or> n = 173))"

definition repr_char :: "char \<Rightarrow> char \<Rightarrow> string" where
  "repr_char q c =
     (if c = q \<or> c = CHR 0x5C then [CHR 0x5C, c]
      else if c = CHR 0x09 then [CHR 0x5C, CHR ''t'']
      else if c = CHR 0x0A then [CHR 0x5C, CHR ''n'']
      else if c = CHR 0x0D then [CHR 0x5C, CHR ''r'']
      else if \<not> py_isprintable c
        then [CHR 0x5C, CHR ''x'', hex_digit (of_char c div 16), hex_digit (of_char c mod 16)]
      else [c])"

definition py_repr :: "string \<Rightarrow> string" where
  "py_repr s =
     (let q = (if CHR 0x27 \<in> set s \<and> CHR 0x22 \<notin> set s then CHR 0x22 else CHR 0x27)
      in [q] @ concat (map (repr_char q) s) @ [q])"

section \<open>JSON values\<close>

text \<open>
  The values \<^verbatim>\<open>json.loads\<close> returns and \<^verbatim>\<open>json.dump\<close> writes. A \<^verbatim>\<open>dict\<close> is an
  association list in insertion order; a \<^verbatim>\<open>float\<close> is carried by its \<^verbatim>\<open>repr\<close>.
\<close>

datatype json =
    JNull
  | JBool bool
  | JInt int
  | JFloat string
  | JStr string
  | JArr "json list"
  | JObj "(string \<times> json) list"

fun py_type_name :: "json \<Rightarrow> string" where
  "py_type_name JNull = ''NoneType''"
| "py_type_name (JBool b) = ''bool''"
| "py_type_name (JInt i) = ''int''"
| "py_type_name (JFloat r) = ''float''"
| "py_type_name (JStr s) = ''str''"
| "py_type_name (JArr xs) = ''list''"
| "py_type_name (JObj kvs) = ''dict''"

text \<open>\<^verbatim>\<open>data.get("content", [])\<close>: only a \<^verbatim>\<open>dict\<close> has the method.\<close>

fun get_content :: "json \<Rightarrow> exn + json" where
  "get_content (JObj kvs) =
     Inr (case map_of kvs ''content'' of Some v \<Rightarrow> v | None \<Rightarrow> JArr [])"
| "get_content v =
     Inl (AttributeError (quoted (py_type_name v) @ '' object has no attribute ''
            @ quoted ''get''))"

text \<open>\<^verbatim>\<open>for c in v\<close>: a list gives its items, a dict its keys, a string its characters.\<close>

fun py_iter :: "json \<Rightarrow> exn + json list" where
  "py_iter (JArr xs) = Inr xs"
| "py_iter (JObj kvs) = Inr (map (\<lambda>kv. JStr (fst kv)) kvs)"
| "py_iter (JStr s) = Inr (map (\<lambda>c. JStr [c]) s)"
| "py_iter v = Inl (TypeError (quoted (py_type_name v) @ '' object is not iterable''))"

text \<open>\<^verbatim>\<open>c[key]\<close> for a string key; the messages are those of CPython 3.11 and later.\<close>

fun py_getitem :: "json \<Rightarrow> string \<Rightarrow> exn + json" where
  "py_getitem (JObj kvs) key =
     (case map_of kvs key of
        Some v \<Rightarrow> Inr v
      | None \<Rightarrow> Inl (KeyError (py_repr key)))"
| "py_getitem (JStr s) key =
     Inl (TypeError (''string indices must be integers, not '' @ quoted ''str''))"
| "py_getitem (JArr xs) key =
     Inl (TypeError ''list indices must be integers or slices, not str'')"
| "py_getitem v key =
     Inl (TypeError (quoted (py_type_name v) @ '' object is not subscriptable''))"

text \<open>
  The comprehension \<^verbatim>\<open>[c["text"] for c in ... if c["type"] == "text"]\<close>: the condition is
  evaluated first; a value that is no string never equals \<^verbatim>\<open>"text"\<close>.
\<close>

fun text_blocks :: "json list \<Rightarrow> exn + json list" where
  "text_blocks [] = Inr []"
| "text_blocks (c # cs) =
     (case py_getitem c ''type'' of
        Inl e \<Rightarrow> Inl e
      | Inr t \<Rightarrow>
          if t = JStr ''text'' then
            (case py_getitem c ''text'' of
               Inl e \<Rightarrow> Inl e
             | Inr v \<Rightarrow>
                 (case text_blocks cs of Inl e \<Rightarrow> Inl e | Inr vs \<Rightarrow> Inr (v # vs)))
          else text_blocks cs)"

text \<open>\<^verbatim>\<open>"".join(items)\<close>: every item must be a string; \<open>i\<close> is the index of the first item.\<close>

fun py_join :: "nat \<Rightarrow> json list \<Rightarrow> exn + string" where
  "py_join i [] = Inr []"
| "py_join i (JStr s # vs) =
     (case py_join (Suc i) vs of Inl e \<Rightarrow> Inl e | Inr r \<Rightarrow> Inr (s @ r))"
| "py_join i (v # vs) =
     Inl (TypeError (''sequence item '' @ show_nat i @ '': expected str instance, ''
            @ py_type_name v @ '' found''))"

text \<open>
  Line 49:
  \<^verbatim>\<open>text_out = "".join([c["text"] for c in data.get("content", []) if c["type"] == "text"])\<close>
\<close>

definition extract_text :: "json \<Rightarrow> exn + string" where
  "extract_text data =
     (case get_content data of
        Inl e \<Rightarrow> Inl e
      | Inr content \<Rightarrow>
          (case py_iter content of
             Inl e \<Rightarrow> Inl e
           | Inr cs \<Rightarrow>
               (case text_blocks cs of Inl e \<Rightarrow> Inl e | Inr vs \<Rightarrow> py_join 0 vs)))"

section \<open>The environment\<close>

text \<open>
  What the program reaches outside itself is a parameter of the model:
  \<^item> \<open>json_loads\<close> is \<^verbatim>\<open>json.loads\<close>: the parsed value, or the exception it raises;
  \<^item> \<open>read_text\<close> is \<^verbatim>\<open>open(path, "r").read()\<close>: the content, or the exception raised
    by opening or decoding (the file system does not change during a run);
  \<^item> \<open>invoke_model\<close> is \<^verbatim>\<open>client.invoke_model(modelId=..., body=json.dumps(body), ...)\<close>
    followed by \<^verbatim>\<open>response["body"].read().decode("utf-8")\<close>: it takes the model
    identifier, the request body and the state of the remote world, and gives the raw
    reply or the exception raised, and the next state of the world;
  \<^item> \<open>path_exists\<close>, \<open>os_walk\<close> and \<open>getenv\<close> are \<^verbatim>\<open>os.path.exists\<close>, \<^verbatim>\<open>os.walk\<close> (the
    triples \<open>(root, dirs, files)\<close> in the order they are yielded) and \<^verbatim>\<open>os.getenv\<close>.
\<close>

record 'w env =
  json_loads :: "string \<Rightarrow> exn + json"
  read_text :: "string \<Rightarrow> exn + string"
  invoke_model :: "string \<Rightarrow> json \<Rightarrow> 'w \<Rightarrow> (exn + string) \<times> 'w"
  path_exists :: "string \<Rightarrow> bool"
  os_walk :: "string \<Rightarrow> (string \<times> string list \<times> string list) list"
  getenv :: "string \<Rightarrow> string option"

text \<open>
  The state threaded through a run: the remote world, and a log of the calls of
  \<^verbatim>\<open>analyze_with_bedrock\<close> made so far, oldest first, each with its text unit and
  pillar. The log is no variable of the program; it makes the number and the order of
  the invocations observable.
\<close>

record 'w state =
  world :: 'w
  calls :: "(string \<times> string) list"

section \<open>Prompt Loader: \<^verbatim>\<open>load_prompt\<close>\<close>

text \<open>
  \<^verbatim>\<open>
  def load_prompt(pillar, code):
      filename = pillar.lower().replace(" ", "_") + ".txt"
      path = os.path.join("prompts", filename)
      with open(path, "r") as f:
          template = f.read()
      return template.replace("{code}", code)
  \<close>
\<close>

definition prompt_path :: "string \<Rightarrow> string" where
  "prompt_path pillar =
     os_path_join ''prompts'' (py_replace '' '' ''_'' (py_lower pillar) @ ''.txt'')"

definition load_prompt :: "'w env \<Rightarrow> string \<Rightarrow> string \<Rightarrow> exn + string" where
  "load_prompt env pillar code =
     (case read_text env (prompt_path pillar) of
        Inl e \<Rightarrow> Inl e
      | Inr template \<Rightarrow> Inr (py_replace ''{code}'' code template))"

section \<open>Response Normalizer: lines 51 to 60 of \<^verbatim>\<open>analyze_with_bedrock\<close>\<close>

text \<open>
  \<^verbatim>\<open>re.sub(r"^```json|```$", "", s, flags=re.MULTILINE)\<close>. The scan goes from left to
  right; at each position the first alternative is tried before the second, and a match
  is deleted. With \<^verbatim>\<open>re.MULTILINE\<close>, \<^verbatim>\<open>^\<close> holds at the start of the string and right
  after a newline, \<^verbatim>\<open>$\<close> at the end of the string and right before a newline. The flag
  \<open>bol\<close> says whether the current position is at the start of a line of the subject.
\<close>

definition newline :: char where
  "newline = CHR 0x0A"

function sub_fences :: "bool \<Rightarrow> string \<Rightarrow> string" where
  "sub_fences bol [] = []"
| "sub_fences bol (c # cs) =
     (if bol \<and> prefix ''```json'' (c # cs) then sub_fences False (drop 7 (c # cs))
      else if prefix ''```'' (c # cs)
              \<and> (drop 3 (c # cs) = [] \<or> hd (drop 3 (c # cs)) = newline)
           then sub_fences False (drop 3 (c # cs))
      else c # sub_fences (c = newline) cs)"
  by pat_completeness auto
termination
  by (relation "measure (\<lambda>(bol, s). length s)") auto

text \<open>
  \<^verbatim>\<open>clean_text = re.sub(r"^```json|```$", "", text_out.strip(), flags=re.MULTILINE).strip()\<close>
\<close>

definition clean_text :: "string \<Rightarrow> string" where
  "clean_text text_out = py_strip (sub_fences True (py_strip text_out))"

text \<open>The dictionary built in the \<^verbatim>\<open>except\<close> branch.\<close>

definition fallback :: "string \<Rightarrow> string \<Rightarrow> json" where
  "fallback clean pillar =
     JObj [(''issues'', JArr [JObj [
       (''description'', JStr clean),
       (''severity'', JStr ''UNKNOWN''),
       (''recommendation'', JStr ''Check manually''),
       (''pillar'', JStr pillar)]])]"

text \<open>
  \<^verbatim>\<open>
  try:
      parsed = json.loads(clean_text)
  except Exception:
      parsed = {"issues": [{"description": clean_text, "severity": "UNKNOWN",
                            "recommendation": "Check manually", "pillar": pillar}]}
  return parsed
  \<close>
  The result is a sum, as for every other step, so that "it does not raise" is a
  statement about the value.
\<close>

definition normalize :: "(string \<Rightarrow> exn + json) \<Rightarrow> string \<Rightarrow> string \<Rightarrow> exn + json" where
  "normalize loads text_out pillar =
     (let clean = clean_text text_out
      in case loads clean of
           Inr parsed \<Rightarrow> Inr parsed
         | Inl e \<Rightarrow> Inr (fallback clean pillar))"

section \<open>Analysis Invoker: \<^verbatim>\<open>analyze_with_bedrock\<close>\<close>

definition request_body :: "string \<Rightarrow> json" where
  "request_body prompt =
     JObj [
       (''anthropic_version'', JStr ''bedrock-2023-05-31''),
       (''max_tokens'', JInt 4000),
       (''messages'', JArr [JObj [
          (''role'', JStr ''user''),
          (''content'', JArr [JObj [(''type'', JStr ''text''), (''text'', JStr prompt)]])]])]"

text \<open>
  The function has no \<^verbatim>\<open>try\<close> around line 23 to line 49: an exception of
  \<^verbatim>\<open>load_prompt\<close>, of the remote call, of \<^verbatim>\<open>json.loads(raw)\<close> or of the extraction of
  the text leaves the function (\<open>Inl\<close>). Only the second \<^verbatim>\<open>json.loads\<close> is guarded.
\<close>

definition analyze_with_bedrock ::
  "'w env \<Rightarrow> string \<Rightarrow> string \<Rightarrow> string \<Rightarrow> 'w state \<Rightarrow> (exn + json) \<times> 'w state" where
  "analyze_with_bedrock env inference_profile_arn txt pillar st0 =
     (let st = st0\<lparr>calls := calls st0 @ [(txt, pillar)]\<rparr>
      in case load_prompt env pillar txt of
           Inl e \<Rightarrow> (Inl e, st)
         | Inr prompt \<Rightarrow>
             (case invoke_model env inference_profile_arn (request_body prompt) (world st) of
                (Inl e, w) \<Rightarrow> (Inl e, st\<lparr>world := w\<rparr>)
              | (Inr raw, w) \<Rightarrow>
                  (case json_loads env raw of
                     Inl e \<Rightarrow> (Inl e, st\<lparr>world := w\<rparr>)
                   | Inr data \<Rightarrow>
                       (case extract_text data of
                          Inl e \<Rightarrow> (Inl e, st\<lparr>world := w\<rparr>)
                        | Inr text_out \<Rightarrow>
                            (normalize (json_loads env) text_out pillar, st\<lparr>world := w\<rparr>)))))"

section \<open>Orchestrator: the loops of \<^verbatim>\<open>main\<close>\<close>

definition pillars :: "string list" where
  "pillars =
     [''Operational Excellence'', ''Security'', ''Reliability'',
      ''Performance Efficiency'', ''Cost Optimization'', ''Sustainability'']"

text \<open>\<^verbatim>\<open>{"error": str(e)}\<close>\<close>

definition error_outcome :: "exn \<Rightarrow> json" where
  "error_outcome e = JObj [(''error'', JStr (py_str e))]"

text \<open>
  Lines 137 to 143, the loop over the chunks with its own \<^verbatim>\<open>try\<close>:
  \<^verbatim>\<open>
  for i, chunk in enumerate(chunks):
      try:
          output = analyze_with_bedrock(client, inference_profile_arn, chunk, pillar)
          pillar_results.append(output)
      except Exception as e:
          pillar_results.append({"error": str(e)})
  \<close>
\<close>

fun analyze_chunks ::
  "'w env \<Rightarrow> string \<Rightarrow> string \<Rightarrow> string list \<Rightarrow> json list \<Rightarrow> 'w state
     \<Rightarrow> json list \<times> 'w state" where
  "analyze_chunks env arn pillar [] pillar_results st = (pillar_results, st)"
| "analyze_chunks env arn pillar (chunk # chunks) pillar_results st =
     (case analyze_with_bedrock env arn chunk pillar st of
        (Inr output, st') \<Rightarrow>
          analyze_chunks env arn pillar chunks (pillar_results @ [output]) st'
      | (Inl e, st') \<Rightarrow>
          analyze_chunks env arn pillar chunks (pillar_results @ [error_outcome e]) st')"

text \<open>
  Lines 131 to 151, the body of the loop over the pillars. \<^verbatim>\<open>file_results\<close> is a
  \<^verbatim>\<open>dict\<close>: an assignment replaces the value of a key that is present and appends a new
  key otherwise, which is \<^const>\<open>AList.update\<close>. The outer \<^verbatim>\<open>except\<close> catches what the
  unguarded statements raise.
\<close>

definition analyze_pillar ::
  "'w env \<Rightarrow> string \<Rightarrow> string \<Rightarrow> string \<Rightarrow> (string \<times> json list) list \<Rightarrow> 'w state
     \<Rightarrow> (string \<times> json list) list \<times> 'w state" where
  "analyze_pillar env arn content pillar file_results st =
     (if length content > 2000 then
        (case chunk_text content default_max_chars of
           Inl e \<Rightarrow> (AList.update pillar [error_outcome e] file_results, st)
         | Inr chunks \<Rightarrow>
             (case analyze_chunks env arn pillar chunks [] st of
                (pillar_results, st') \<Rightarrow>
                  (AList.update pillar pillar_results file_results, st')))
      else
        (case analyze_with_bedrock env arn content pillar st of
           (Inr output, st') \<Rightarrow> (AList.update pillar [output] file_results, st')
         | (Inl e, st') \<Rightarrow> (AList.update pillar [error_outcome e] file_results, st')))"

text \<open>Line 130, \<^verbatim>\<open>for pillar in pillars\<close>.\<close>

fun analyze_pillars ::
  "'w env \<Rightarrow> string \<Rightarrow> string \<Rightarrow> string list \<Rightarrow> (string \<times> json list) list \<Rightarrow> 'w state
     \<Rightarrow> (string \<times> json list) list \<times> 'w state" where
  "analyze_pillars env arn content [] file_results st = (file_results, st)"
| "analyze_pillars env arn content (pillar # rest) file_results st =
     (case analyze_pillar env arn content pillar file_results st of
        (file_results', st') \<Rightarrow> analyze_pillars env arn content rest file_results' st')"

type_synonym file_report = "(string \<times> json list) list"
type_synonym report = "(string \<times> file_report) list"

text \<open>
  Lines 116 to 153, \<^verbatim>\<open>for file in files\<close>: a file whose name does not end in
  \<^verbatim>\<open>.tf\<close> is passed over, a file that cannot be read is skipped by \<^verbatim>\<open>continue\<close>, and
  \<^verbatim>\<open>results[file] = file_results\<close> stores the report under the name of the file as
  \<^verbatim>\<open>os.walk\<close> gave it, without its directory.
\<close>

fun analyze_files ::
  "'w env \<Rightarrow> string \<Rightarrow> string \<Rightarrow> string list \<Rightarrow> report \<Rightarrow> 'w state \<Rightarrow> report \<times> 'w state" where
  "analyze_files env arn rootp [] results st = (results, st)"
| "analyze_files env arn rootp (file # files) results st =
     (if py_endswith file ''.tf'' then
        (case read_text env (os_path_join rootp file) of
           Inl e \<Rightarrow> analyze_files env arn rootp files results st
         | Inr content \<Rightarrow>
             (case analyze_pillars env arn content pillars [] st of
                (file_results, st') \<Rightarrow>
                  analyze_files env arn rootp files (AList.update file file_results results) st'))
      else analyze_files env arn rootp files results st)"

text \<open>Line 115, \<^verbatim>\<open>for root, _, files in os.walk(tf_dir)\<close>.\<close>

fun walk_loop ::
  "'w env \<Rightarrow> string \<Rightarrow> (string \<times> string list \<times> string list) list \<Rightarrow> report \<Rightarrow> 'w state
     \<Rightarrow> report \<times> 'w state" where
  "walk_loop env arn [] results st = (results, st)"
| "walk_loop env arn ((rootp, dirs, files) # rest) results st =
     (case analyze_files env arn rootp files results st of
        (results', st') \<Rightarrow> walk_loop env arn rest results' st')"

text \<open>
  \<^verbatim>\<open>main\<close> from line 94 to line 153. The result is \<open>None\<close> when the function returns at
  line 97 and writes nothing, and otherwise the dictionary \<^verbatim>\<open>results\<close> that line 159
  writes, with the final state. The session, the set-up of the repository, the printed
  messages and the name of the output file are left out.
\<close>

definition default_arn :: string where
  "default_arn =
     ''arn:aws:bedrock:us-west-2:YOUR_ACCOUNT_ID:inference-profile/us.anthropic.claude-3-7-sonnet-20250219-v1:0''"

definition tf_dir :: string where
  "tf_dir = os_path_join (os_path_join ''./cloned_repo'' ''infra'') ''aws-tf''"

definition main :: "'w env \<Rightarrow> 'w state \<Rightarrow> (report \<times> 'w state) option" where
  "main env st =
     (if \<not> path_exists env tf_dir then None
      else
        let inference_profile_arn =
              (case getenv env ''BEDROCK_INFERENCE_PROFILE_ARN'' of
                 Some v \<Rightarrow> v
               | None \<Rightarrow> default_arn)
        in Some (walk_loop env inference_profile_arn (os_walk env tf_dir) [] st))"

section \<open>Notions and examples used in the statements\<close>

text \<open>
  The shape the program expects of a reply: an object whose \<^verbatim>\<open>issues\<close> is a list, each
  issue an object with the keys \<^verbatim>\<open>description\<close>, \<^verbatim>\<open>severity\<close>, \<^verbatim>\<open>recommendation\<close> and
  \<^verbatim>\<open>pillar\<close>.
\<close>

fun is_issue :: "json \<Rightarrow> bool" where
  "is_issue (JObj kvs) =
     list_all (\<lambda>k. map_of kvs k \<noteq> None)
       [''description'', ''severity'', ''recommendation'', ''pillar'']"
| "is_issue v = False"

fun is_envelope :: "json \<Rightarrow> bool" where
  "is_envelope (JObj kvs) =
     (case map_of kvs ''issues'' of
        Some (JArr issues) \<Rightarrow> list_all is_issue issues
      | _ \<Rightarrow> False)"
| "is_envelope v = False"

text \<open>
  A decoder for the examples. It gives what \<^verbatim>\<open>json.loads\<close> gives on the texts the
  examples pass to it: the three documents below, and texts that are no JSON, on which
  \<^verbatim>\<open>json.loads\<close> raises \<^verbatim>\<open>JSONDecodeError\<close>. It stands for \<^verbatim>\<open>json.loads\<close> on no other
  text.
\<close>

definition sample_loads :: "string \<Rightarrow> exn + json" where
  \<open>sample_loads s =
     (if s = ''{"issues":[]}'' then Inr (JObj [(''issues'', JArr [])])
      else if s = ''[]'' then Inr (JArr [])
      else if s = ''{"content":[{"type":"text","text":"[]"}]}''
        then Inr (JObj [(''content'',
                         JArr [JObj [(''type'', JStr ''text''), (''text'', JStr ''[]'')]])])
      else Inl (JSONDecodeError ''Expecting value: line 1 column 1 (char 0)''))\<close>

text \<open>
  What the call sites of \<^verbatim>\<open>analyze_with_bedrock\<close> in \<^verbatim>\<open>main\<close> store for a result: the value
  returned, or \<^verbatim>\<open>{"error": str(e)}\<close> for the exception caught.
\<close>

definition outcome_of :: "exn + json \<Rightarrow> json" where
  "outcome_of r = (case r of Inr output \<Rightarrow> output | Inl e \<Rightarrow> error_outcome e)"

text \<open>
  A sequential run over a list of text units, each a text with its pillar: every unit is
  analysed once, in order, in the state the previous unit left, and its outcome is put at
  its position. An exception on one unit becomes that unit's outcome and the run goes on.
  The loops of the program are compared with this run.
\<close>

fun run_units ::
  "'w env \<Rightarrow> string \<Rightarrow> (string \<times> string) list \<Rightarrow> 'w state \<Rightarrow> json list \<times> 'w state" where
  "run_units env arn [] st = ([], st)"
| "run_units env arn ((txt, pillar) # units) st =
     (case analyze_with_bedrock env arn txt pillar st of
        (r, st1) \<Rightarrow>
          (case run_units env arn units st1 of
             (outs, st2) \<Rightarrow> (outcome_of r # outs, st2)))"

text \<open>
  The chunks \<^verbatim>\<open>chunk_text(content)\<close> returns (the call cannot raise, see
  \<open>chunk_text_chunks_of\<close> below), and the text units of a file for one pillar: its chunks
  when it is longer than 2000 characters, the whole content otherwise.
\<close>

definition chunks_of :: "string \<Rightarrow> string list" where
  "chunks_of content =
     (case chunk_text content default_max_chars of Inr chunks \<Rightarrow> chunks | Inl e \<Rightarrow> [])"

definition units_of :: "string \<Rightarrow> string \<Rightarrow> (string \<times> string) list" where
  "units_of content pillar =
     (if 2000 < length content then map (\<lambda>chunk. (chunk, pillar)) (chunks_of content)
      else [(content, pillar)])"

text \<open>The sequential run over the pillars of one file, one entry per pillar.\<close>

fun run_pillars ::
  "'w env \<Rightarrow> string \<Rightarrow> string \<Rightarrow> string list \<Rightarrow> 'w state \<Rightarrow> file_report \<times> 'w state" where
  "run_pillars env arn content [] st = ([], st)"
| "run_pillars env arn content (pillar # rest) st =
     (case run_units env arn (units_of content pillar) st of
        (outs, st1) \<Rightarrow>
          (case run_pillars env arn content rest st1 of
             (entries, st2) \<Rightarrow> ((pillar, outs) # entries, st2)))"



text \<open>
  The specification's reading of the substitution in the Prompt Loader, "into a single
  designated placeholder occurrence": the first occurrence of the placeholder is replaced
  and the rest of the template is kept as it is.
\<close>

fun spec_substitute_single :: "'a list \<Rightarrow> 'a list \<Rightarrow> 'a list \<Rightarrow> 'a list" where
  "spec_substitute_single old new [] = []"
| "spec_substitute_single old new (c # cs) =
     (if prefix old (c # cs) then new @ drop (length old) (c # cs)
      else c # spec_substitute_single old new cs)"

text \<open>
  An environment for the examples: the file system holds the listed files and no others
  (opening any other path raises \<^verbatim>\<open>FileNotFoundError\<close> with the message of the
  interpreter, which shows \<^verbatim>\<open>repr(path)\<close>), the remote service answers every request with
  one text block holding \<^verbatim>\<open>[]\<close> and counts the requests, the target directory exists,
  \<^verbatim>\<open>os.walk\<close> yields the given triples, and the environment variable is not set.
\<close>

definition sample_files :: "(string \<times> string) list \<Rightarrow> string \<Rightarrow> exn + string" where
  "sample_files files path =
     (case map_of files path of
        Some content \<Rightarrow> Inr content
      | None \<Rightarrow>
          Inl (FileNotFoundError (''[Errno 2] No such file or directory: '' @ py_repr path)))"

definition sample_env ::
  "(string \<times> string) list \<Rightarrow> (string \<times> string list \<times> string list) list \<Rightarrow> nat env" where
  \<open>sample_env files walk =
     \<lparr> json_loads = sample_loads,
       read_text = sample_files files,
       invoke_model = (\<lambda>model_id body w. (Inr ''{"content":[{"type":"text","text":"[]"}]}'', Suc w)),
       path_exists = (\<lambda>path. True),
       os_walk = (\<lambda>path. walk),
       getenv = (\<lambda>name. None) \<rparr>\<close>

definition sample_walk :: "(string \<times> string list \<times> string list) list" where
  "sample_walk = [(''./cloned_repo/infra/aws-tf'', [], [''main.tf''])]"

definition start :: "nat state" where
  "start = \<lparr>world = 0, calls = []\<rparr>"

text \<open>
  The lines of a text as the anchors \<^verbatim>\<open>^\<close> and \<^verbatim>\<open>$\<close> of a regular expression see them in
  multi-line mode: the pieces between the newlines, one more than there are newlines;
  \<open>join_lines\<close> puts them together again. \<open>strip_fence_line\<close> is the removal of the fence
  markers from one line, which the substitution is compared with: the marker \<^verbatim>\<open>```json\<close> is
  removed where it starts the line, and then the marker \<^verbatim>\<open>```\<close> where it ends what is left.
\<close>

definition strip_fence_line :: "string \<Rightarrow> string" where
  "strip_fence_line l =
     (let m = (if prefix ''```json'' l then drop 7 l else l)
      in if suffix ''```'' m then take (length m - 3) m else m)"

fun split_lines :: "string \<Rightarrow> string list" where
  "split_lines [] = [] # []"
| "split_lines (c # cs) =
     (if c = newline then [] # split_lines cs
      else (case split_lines cs of [] \<Rightarrow> [c] # [] | l # ls \<Rightarrow> (c # l) # ls))"

fun join_lines :: "string list \<Rightarrow> string" where
  "join_lines [] = []"
| "join_lines [l] = l"
| "join_lines (l # k # ls) = l @ newline # join_lines (k # ls)"






section \<open>Properties of the Chunker\<close>

lemma foldl_append_single: "foldl (\<lambda>acc i. acc @ [f i]) a xs = a @ map f xs"
  by (induction xs arbitrary: a) simp_all

lemma div_next_window:
  assumes "0 < step" and "\<not> stop \<le> i + step"
  shows "(stop - i + step - 1) div step = Suc ((stop - (i + step) + step - 1) div (step::nat))"
proof -
  from assms have "stop - i + step - 1 = (stop - (i + step) + step - 1) + step" by simp
  then have "(stop - i + step - 1) div step = ((stop - (i + step) + step - 1) + step) div step"
    by simp
  also have "\<dots> = Suc ((stop - (i + step) + step - 1) div step)"
    using assms(1) by (simp only: div_add_self2)
  finally show ?thesis .
qed

lemma range_from_multiples:
  "0 < step \<Longrightarrow>
   range_from i stop step = map (\<lambda>k. i + k * step) [0..<(stop - i + step - 1) div step]"
proof (induction i stop step rule: range_from.induct)
  case (1 i stop step)
  show ?case
  proof (cases "stop \<le> i")
    case True
    with "1.prems" have "(stop - i + step - 1) div step = 0" by simp
    with True show ?thesis by (simp add: range_from.simps)
  next
    case False
    let ?m = "(stop - (i + step) + step - 1) div step"
    have cnt: "(stop - i + step - 1) div step = Suc ?m"
    proof (cases "stop \<le> i + step")
      case True
      with False "1.prems" have "(stop - i + step - 1) div step = 1"
        by (intro Euclidean_Rings.div_nat_eqI) auto
      moreover from True "1.prems" have "?m = 0" by simp
      ultimately show ?thesis by simp
    next
      case False
      with "1.prems" show ?thesis by (rule div_next_window)
    qed
    from False "1.prems" have ih:
      "range_from (i + step) stop step = map (\<lambda>k. i + step + k * step) [0..<?m]"
      using "1.IH" by simp
    have shift: "map (\<lambda>k. i + k * step) [0..<Suc ?m] =
          i # map (\<lambda>k. i + step + k * step) [0..<?m]"
      by (simp add: upt_rec [of 0] map_Suc_upt [symmetric] del: upt_Suc)
    have "range_from i stop step = i # range_from (i + step) stop step"
      using False "1.prems" by (simp add: range_from.simps [of i])
    with ih shift cnt show ?thesis by (simp only:)
  qed
qed

lemma chunk_text_map:
  "0 < S \<Longrightarrow>
   chunk_text T (int S) =
     Inr (map (\<lambda>k. take S (drop (k * S) T)) [0..<(length T + S - 1) div S])"
  by (simp add: chunk_text_def py_range0_def foldl_append_single range_from_multiples
        py_slice_def comp_def)

lemma concat_windows:
  "concat (map (\<lambda>k. take S (drop (k * S) T)) [0..<m]) = take (m * S) T"
proof (induction m)
  case 0
  show ?case by simp
next
  case (Suc m)
  have "take (m * S) T @ take S (drop (m * S) T) = take (m * S + S) T"
    by (simp add: take_add)
  with Suc show ?case by (simp add: add.commute)
qed

lemma windows_cover: "0 < S \<Longrightarrow> n \<le> ((n + S - 1) div S) * (S::nat)"
proof -
  assume S: "0 < S"
  have "n + S - 1 = ((n + S - 1) div S) * S + (n + S - 1) mod S" by simp
  moreover from S have "(n + S - 1) mod S < S" by simp
  ultimately show ?thesis by linarith
qed

lemma ceiling_as_div:
  assumes S: "0 < S"
  shows "nat \<lceil>real n / real S\<rceil> = (n + S - 1) div S"
proof -
  let ?q = "(n + S - 1) div S"
  have d: "n + S - 1 = ?q * S + (n + S - 1) mod S" by simp
  have m: "(n + S - 1) mod S < S" using S by simp
  have up: "n \<le> ?q * S" using d m by linarith
  have lo: "?q * S < n + S" using d S by linarith
  have "\<lceil>real n / real S\<rceil> = int ?q"
  proof (rule ceiling_unique)
    from lo have "real (?q * S) < real (n + S)" by (simp only: of_nat_less_iff)
    then have "real ?q * real S - real S < real n" by simp
    then have "(real ?q - 1) * real S < real n" by (simp add: algebra_simps)
    then show "real_of_int (int ?q) - 1 < real n / real S"
      using S by (simp add: pos_less_divide_eq)
  next
    from up have "real n \<le> real (?q * S)" by (simp only: of_nat_le_iff)
    then show "real n / real S \<le> real_of_int (int ?q)"
      using S by (simp add: pos_divide_le_eq)
  qed
  then show ?thesis by simp
qed

text \<open>
  C1. For every text \<open>T\<close> and positive chunk size \<open>S\<close> the Chunker returns (it does not
  raise) a list \<open>cs\<close> whose concatenation is \<open>T\<close>, whose chunks have length at most \<open>S\<close>,
  whose length is \<open>ceil(len(T) / S)\<close>, and whose \<open>k\<close>-th chunk is the window of \<open>T\<close> that
  starts at offset \<open>k * S\<close>: the chunks are contiguous, disjoint and in left-to-right
  order. For the empty text the list is empty.
\<close>

theorem chunk_text_partition:
  assumes "0 < S"
  shows "\<exists>cs. chunk_text T (int S) = Inr cs
           \<and> concat cs = T
           \<and> (\<forall>c \<in> set cs. length c \<le> S)
           \<and> length cs = nat \<lceil>real (length T) / real S\<rceil>
           \<and> (\<forall>k < length cs. cs ! k = take S (drop (k * S) T))
           \<and> (T = [] \<longrightarrow> cs = [])"
proof -
  let ?m = "(length T + S - 1) div S"
  let ?cs = "map (\<lambda>k. take S (drop (k * S) T)) [0..<?m]"
  have run: "chunk_text T (int S) = Inr ?cs"
    using assms by (rule chunk_text_map)
  have cat: "concat ?cs = T"
    using windows_cover [OF assms, of "length T"] by (simp add: concat_windows)
  have len: "\<forall>c \<in> set ?cs. length c \<le> S" by auto
  have cnt: "length ?cs = nat \<lceil>real (length T) / real S\<rceil>"
    using ceiling_as_div [OF assms, of "length T"] by simp
  have nth: "\<forall>k < length ?cs. ?cs ! k = take S (drop (k * S) T)" by simp
  have emp: "T = [] \<longrightarrow> ?cs = []" using assms by simp
  from run cat len cnt nth emp show ?thesis by blast
qed

theorem chunk_text_partition_witness:
  "(0::nat) < 3 \<and> chunk_text ''abcdefgh'' 3 = Inr [''abc'', ''def'', ''gh'']
     \<and> concat [''abc'', ''def'', ''gh''] = ''abcdefgh''
     \<and> length [''abc'', ''def'', ''gh''] = nat \<lceil>real (length ''abcdefgh'') / real (3::nat)\<rceil>"
proof -
  have run: "chunk_text ''abcdefgh'' 3 = Inr [''abc'', ''def'', ''gh'']"
    by (simp add: chunk_text_def py_range0_def range_from.simps py_slice_def)
  from chunk_text_partition [of 3 "''abcdefgh''"] obtain cs where
    "chunk_text ''abcdefgh'' (int 3) = Inr cs" "concat cs = ''abcdefgh''"
    "length cs = nat \<lceil>real (length ''abcdefgh'') / real (3::nat)\<rceil>"
    by auto
  with run show ?thesis by simp
qed

section \<open>Properties of the Response Normalizer\<close>

lemma prefix_before_sep:
  "prefix p (l @ x # r) \<Longrightarrow> x \<notin> set p \<Longrightarrow> prefix p l"
  by (induction l arbitrary: p) (auto simp: prefix_Cons)

lemma dropWhile_hd_keeps: "xs \<noteq> [] \<Longrightarrow> \<not> P (hd xs) \<Longrightarrow> dropWhile P xs = xs"
  by (cases xs) simp_all

lemma py_strip_padded:
  assumes "\<forall>c \<in> set ws1. py_isspace c" and "\<forall>c \<in> set ws2. py_isspace c"
    and "m \<noteq> []" and "\<not> py_isspace (hd m)" and "\<not> py_isspace (last m)"
  shows "py_strip (ws1 @ m @ ws2) = m"
proof -
  have "dropWhile py_isspace (ws1 @ m @ ws2) = dropWhile py_isspace (m @ ws2)"
    using assms(1) by (simp add: dropWhile_append2)
  also have "\<dots> = m @ ws2"
    using assms(3,4) by (intro dropWhile_hd_keeps) simp_all
  finally have front: "dropWhile py_isspace (ws1 @ m @ ws2) = m @ ws2" .
  have sp: "\<And>x. x \<in> set (rev ws2) \<Longrightarrow> py_isspace x"
    using assms(2) by simp
  have "dropWhile py_isspace (rev ws2 @ rev m) = dropWhile py_isspace (rev m)"
    using sp by (rule dropWhile_append2)
  also have "\<dots> = rev m"
    using assms(3,5) by (intro dropWhile_hd_keeps) (simp_all add: hd_rev)
  finally have rear: "dropWhile py_isspace (rev ws2 @ rev m) = rev m" .
  show ?thesis by (simp add: py_strip_def front rear)
qed

lemma drop_append_le: "n \<le> length xs \<Longrightarrow> drop n (xs @ ys) = drop n xs @ ys"
  by simp

lemma sub_fences_at_open:
  assumes "bol" and "prefix ''```json'' s"
  shows "sub_fences bol s = sub_fences False (drop 7 s)"
proof (cases s)
  case Nil
  with assms(2) show ?thesis by simp
next
  case (Cons c cs)
  from assms have a: "(bol \<and> prefix ''```json'' (c # cs)) = True" unfolding Cons by blast
  show ?thesis unfolding Cons by (simp only: sub_fences.simps a if_True)
qed

lemma sub_fences_at_close:
  assumes "\<not> (bol \<and> prefix ''```json'' s)" and "prefix ''```'' s"
    and "drop 3 s = [] \<or> hd (drop 3 s) = newline"
  shows "sub_fences bol s = sub_fences False (drop 3 s)"
proof (cases s)
  case Nil
  with assms(2) show ?thesis by simp
next
  case (Cons c cs)
  from assms(1) have a: "(bol \<and> prefix ''```json'' (c # cs)) = False" unfolding Cons by blast
  from assms(2,3) have b:
    "(prefix ''```'' (c # cs) \<and> (drop 3 (c # cs) = [] \<or> hd (drop 3 (c # cs)) = newline)) = True"
    unfolding Cons by blast
  show ?thesis unfolding Cons by (simp only: sub_fences.simps a b if_True if_False)
qed

lemma sub_fences_at_other:
  assumes "\<not> (bol \<and> prefix ''```json'' (c # cs))"
    and "\<not> (prefix ''```'' (c # cs) \<and> (drop 3 (c # cs) = [] \<or> hd (drop 3 (c # cs)) = newline))"
  shows "sub_fences bol (c # cs) = c # sub_fences (c = newline) cs"
proof -
  from assms(1) have a: "(bol \<and> prefix ''```json'' (c # cs)) = False" by blast
  from assms(2) have b:
    "(prefix ''```'' (c # cs) \<and> (drop 3 (c # cs) = [] \<or> hd (drop 3 (c # cs)) = newline)) = False"
    by blast
  show ?thesis by (simp only: sub_fences.simps a b if_False)
qed

lemma sub_fences_linewise:
  "newline \<notin> set l \<Longrightarrow>
   sub_fences b (l @ newline # rest) = sub_fences b l @ newline # sub_fences True rest"
proof (induction b l rule: sub_fences.induct)
  case (1 bol)
  show ?case by (simp add: newline_def)
next
  case (2 bol c cs)
  let ?s = "c # cs"
  let ?t = "c # (cs @ newline # rest)"
  have t: "?s @ newline # rest = ?t" by simp
  have nl: "newline \<notin> set ?s" using "2.prems" .
  have open_iff: "prefix ''```json'' ?t \<longleftrightarrow> prefix ''```json'' ?s"
  proof
    assume "prefix ''```json'' ?t"
    then have "prefix ''```json'' (?s @ newline # rest)" by (simp only: append_Cons)
    then show "prefix ''```json'' ?s"
      by (rule prefix_before_sep) (simp add: newline_def)
  next
    assume "prefix ''```json'' ?s"
    then have "prefix ''```json'' (?s @ newline # rest)" by (rule prefix_prefix)
    then show "prefix ''```json'' ?t" by (simp only: append_Cons)
  qed
  have tick_iff: "prefix ''```'' ?t \<longleftrightarrow> prefix ''```'' ?s"
  proof
    assume "prefix ''```'' ?t"
    then have "prefix ''```'' (?s @ newline # rest)" by (simp only: append_Cons)
    then show "prefix ''```'' ?s"
      by (rule prefix_before_sep) (simp add: newline_def)
  next
    assume "prefix ''```'' ?s"
    then have "prefix ''```'' (?s @ newline # rest)" by (rule prefix_prefix)
    then show "prefix ''```'' ?t" by (simp only: append_Cons)
  qed
  show ?case
  proof (cases "bol \<and> prefix ''```json'' ?s")
    case True
    then have len: "7 \<le> length ?s" by (auto dest: prefix_length_le)
    have d: "drop 7 ?t = drop 7 ?s @ newline # rest"
      using drop_append_le [OF len, of "newline # rest"] by (simp only: append_Cons)
    from nl have "newline \<notin> set (drop 7 ?s)" by (meson in_set_dropD)
    then have ih:
      "sub_fences False (drop 7 ?s @ newline # rest) =
       sub_fences False (drop 7 ?s) @ newline # sub_fences True rest"
      by (rule "2.IH"(1) [OF True])
    from True have b: "bol" and ps: "prefix ''```json'' ?s" by blast+
    from ps open_iff have pt: "prefix ''```json'' ?t" by blast
    have "sub_fences bol ?t = sub_fences False (drop 7 ?t)"
      by (rule sub_fences_at_open [OF b pt])
    moreover have "sub_fences bol ?s = sub_fences False (drop 7 ?s)"
      by (rule sub_fences_at_open [OF b ps])
    ultimately show ?thesis unfolding t by (simp only: d ih)
  next
    case noopen: False
    then have noopen_t: "\<not> (bol \<and> prefix ''```json'' ?t)" using open_iff by blast
    show ?thesis
    proof (cases "prefix ''```'' ?s \<and> (drop 3 ?s = [] \<or> hd (drop 3 ?s) = newline)")
      case True
      then have len: "3 \<le> length ?s" by (auto dest: prefix_length_le)
      have e: "drop 3 ?s = []"
      proof (rule ccontr)
        assume ne: "drop 3 ?s \<noteq> []"
        with True have "hd (drop 3 ?s) = newline" by blast
        with ne have "newline \<in> set (drop 3 ?s)" by (metis hd_in_set)
        then have "newline \<in> set ?s" by (meson in_set_dropD)
        with nl show False by simp
      qed
      have "drop 3 ?t = drop 3 ?s @ newline # rest"
        using drop_append_le [OF len, of "newline # rest"] by (simp only: append_Cons)
      then have d: "drop 3 ?t = newline # rest" by (simp only: e append_Nil)
      from True have ps: "prefix ''```'' ?s"
        and es: "drop 3 ?s = [] \<or> hd (drop 3 ?s) = newline" by blast+
      from ps tick_iff have pt: "prefix ''```'' ?t" by blast
      have "sub_fences bol ?s = sub_fences False (drop 3 ?s)"
        by (rule sub_fences_at_close [OF noopen ps es])
      then have l: "sub_fences bol ?s = []" by (simp only: e sub_fences.simps)
      have et: "drop 3 ?t = [] \<or> hd (drop 3 ?t) = newline"
        unfolding d by (rule disjI2) (simp only: list.sel)
      have "sub_fences bol ?t = sub_fences False (drop 3 ?t)"
        by (rule sub_fences_at_close [OF noopen_t pt et])
      also have "\<dots> = newline # sub_fences True rest"
        unfolding d by (simp add: newline_def)
      finally show ?thesis unfolding t using l by simp
    next
      case False
      have notick: "\<not> (prefix ''```'' ?t \<and> (drop 3 ?t = [] \<or> hd (drop 3 ?t) = newline))"
      proof
        assume a: "prefix ''```'' ?t \<and> (drop 3 ?t = [] \<or> hd (drop 3 ?t) = newline)"
        then have p: "prefix ''```'' ?s" using tick_iff by blast
        then have len: "3 \<le> length ?s" by (auto dest: prefix_length_le)
        have d: "drop 3 ?t = drop 3 ?s @ newline # rest"
          using drop_append_le [OF len, of "newline # rest"] by (simp only: append_Cons)
        from a have "hd (drop 3 ?t) = newline" unfolding d by simp
        then have "hd (drop 3 ?s @ newline # rest) = newline" unfolding d .
        then have "drop 3 ?s = [] \<or> hd (drop 3 ?s) = newline"
          by (cases "drop 3 ?s") simp_all
        with p False show False by blast
      qed
      from nl have ih_pre: "newline \<notin> set cs" by simp
      have ih: "sub_fences (c = newline) (cs @ newline # rest) =
            sub_fences (c = newline) cs @ newline # sub_fences True rest"
        by (rule "2.IH"(3) [OF noopen False ih_pre])
      have "sub_fences bol ?t = c # sub_fences (c = newline) (cs @ newline # rest)"
        using noopen_t notick by (rule sub_fences_at_other)
      moreover have "sub_fences bol ?s = c # sub_fences (c = newline) cs"
        using noopen False by (rule sub_fences_at_other)
      ultimately show ?thesis unfolding t by (simp only: ih append_Cons)
    qed
  qed
qed

text \<open>
  C2, as amended. For every raw reply and every category the Normalizer does not raise. If
  the cleaned text does not parse, the result is exactly the single-issue envelope with the
  cleaned text as description, severity \<^verbatim>\<open>UNKNOWN\<close>, recommendation \<^verbatim>\<open>Check manually\<close>
  and the category as pillar, and that envelope is well formed. If the cleaned text parses,
  the result is the parsed value, whatever its shape.
\<close>

theorem normalize_fallback_or_parsed:
  "(\<forall>e. loads (clean_text raw) = Inl e \<longrightarrow>
      normalize loads raw pillar =
        Inr (JObj [(''issues'', JArr [JObj [
               (''description'', JStr (clean_text raw)),
               (''severity'', JStr ''UNKNOWN''),
               (''recommendation'', JStr ''Check manually''),
               (''pillar'', JStr pillar)]])]))
   \<and> (\<forall>v. loads (clean_text raw) = Inr v \<longrightarrow> normalize loads raw pillar = Inr v)
   \<and> (\<exists>v. normalize loads raw pillar = Inr v)
   \<and> is_envelope (fallback (clean_text raw) pillar)"
  by (cases "loads (clean_text raw)") (simp_all add: normalize_def fallback_def)

theorem normalize_fallback_or_parsed_witness:
  "normalize sample_loads ''not json at all'' ''Security'' =
     Inr (JObj [(''issues'', JArr [JObj [
            (''description'', JStr ''not json at all''),
            (''severity'', JStr ''UNKNOWN''),
            (''recommendation'', JStr ''Check manually''),
            (''pillar'', JStr ''Security'')]])])
   \<and> normalize sample_loads ''  []  '' ''Security'' = Inr (JArr [])"
proof -
  have c: "clean_text ''not json at all'' = ''not json at all''" by code_simp
  have l: "sample_loads ''not json at all'' =
             Inl (JSONDecodeError ''Expecting value: line 1 column 1 (char 0)'')"
    by (simp add: sample_loads_def)
  have c2: "clean_text ''  []  '' = ''[]''" by code_simp
  have l2: "sample_loads ''[]'' = Inr (JArr [])" by (simp add: sample_loads_def)
  note t = normalize_fallback_or_parsed [of sample_loads "''not json at all''" "''Security''",
      THEN conjunct1, THEN spec, THEN mp, unfolded c, OF l]
  note t2 = normalize_fallback_or_parsed [of sample_loads "''  []  ''" "''Security''",
      THEN conjunct2, THEN conjunct1, THEN spec, THEN mp, unfolded c2, OF l2]
  show ?thesis by (intro conjI) (rule t, rule t2)
qed

text \<open>
  C2 as stated fails: the reply \<^verbatim>\<open>[]\<close> is valid JSON, \<^verbatim>\<open>json.loads("[]")\<close> is the empty
  list, and the Normalizer returns that list, which is no envelope.
\<close>

theorem normalize_not_always_envelope:
  "normalize sample_loads ''[]'' ''Security'' = Inr (JArr []) \<and> \<not> is_envelope (JArr [])"
proof -
  have c: "clean_text ''[]'' = ''[]''" by code_simp
  show ?thesis by (simp add: normalize_def c sample_loads_def)
qed

lemma split_lines_nonempty: "split_lines s \<noteq> []"
  by (induction s) (auto split: list.splits)

lemma split_lines_line: "newline \<notin> set l \<Longrightarrow> split_lines l = [l]"
  by (induction l) auto

lemma split_lines_first: "newline \<notin> set l \<Longrightarrow> split_lines (l @ newline # rest) = l # split_lines rest"
  by (induction l) auto

lemma join_lines_Cons: "ls \<noteq> [] \<Longrightarrow> join_lines (l # ls) = l @ newline # join_lines ls"
  by (cases ls) simp_all

lemma join_split_lines: "join_lines (split_lines s) = s"
proof (induction s)
  case Nil
  show ?case by simp
next
  case (Cons c cs)
  show ?case
  proof (cases "c = newline")
    case True
    with Cons show ?thesis by (simp add: join_lines_Cons split_lines_nonempty)
  next
    case False
    obtain l ls where sl: "split_lines cs = l # ls"
      using split_lines_nonempty [of cs] by (cases "split_lines cs") auto
    have "split_lines (c # cs) = (c # l) # ls" using False sl by simp
    then have "join_lines (split_lines (c # cs)) = join_lines ((c # l) # ls)" by simp
    also have "\<dots> = c # join_lines (l # ls)" by (cases ls) simp_all
    also have "\<dots> = c # cs" using Cons sl by simp
    finally show ?thesis .
  qed
qed

lemma three_ticks_only:
  assumes "prefix ''```'' s" and "drop 3 s = []"
  shows "s = ''```''"
proof -
  from assms(1) obtain t where t: "s = ''```'' @ t" by (auto simp: prefix_def)
  with assms(2) have "t = []" by simp
  with t show ?thesis by simp
qed

lemma sub_fences_close_line:
  "newline \<notin> set m \<Longrightarrow>
   sub_fences False m = (if suffix ''```'' m then take (length m - 3) m else m)"
proof (induction m)
  case Nil
  show ?case by simp
next
  case (Cons c cs)
  from Cons.prems have cn: "c \<noteq> newline" and nl: "newline \<notin> set cs" by auto
  show ?case
  proof (cases "c # cs = ''```''")
    case True
    have "sub_fences False ''```'' = []" by code_simp
    with True show ?thesis by simp
  next
    case False
    have no_close: "\<not> (prefix ''```'' (c # cs)
        \<and> (drop 3 (c # cs) = [] \<or> hd (drop 3 (c # cs)) = newline))"
    proof
      assume a: "prefix ''```'' (c # cs)
        \<and> (drop 3 (c # cs) = [] \<or> hd (drop 3 (c # cs)) = newline)"
      show False
      proof (cases "drop 3 (c # cs) = []")
        case True
        with a have "c # cs = ''```''" by (intro three_ticks_only) blast+
        with False show False by contradiction
      next
        case ne: False
        with a have "hd (drop 3 (c # cs)) = newline" by blast
        with ne have "newline \<in> set (drop 3 (c # cs))" by (metis hd_in_set)
        then have "newline \<in> set (c # cs)" by (meson in_set_dropD)
        with Cons.prems show False by contradiction
      qed
    qed
    have no_open: "\<not> (False \<and> prefix ''```json'' (c # cs))" by blast
    have "sub_fences False (c # cs) = c # sub_fences (c = newline) cs"
      using no_open no_close by (rule sub_fences_at_other)
    also have "\<dots> = c # sub_fences False cs" using cn by simp
    also have "\<dots> = c # (if suffix ''```'' cs then take (length cs - 3) cs else cs)"
      using Cons.IH [OF nl] by simp
    finally have step: "sub_fences False (c # cs)
        = c # (if suffix ''```'' cs then take (length cs - 3) cs else cs)" .
    have suf: "suffix ''```'' (c # cs) \<longleftrightarrow> suffix ''```'' cs"
      using False by (auto simp: suffix_Cons)
    show ?thesis
    proof (cases "suffix ''```'' cs")
      case True
      then have "3 \<le> length cs" by (auto dest: suffix_length_le)
      then have "take (length (c # cs) - 3) (c # cs) = c # take (length cs - 3) cs"
        by (simp add: take_Cons' Suc_diff_le)
      with True suf step show ?thesis by (simp only: if_True)
    next
      case False
      with suf step show ?thesis by (simp only: if_False)
    qed
  qed
qed

lemma sub_fences_bol_irrelevant:
  assumes "\<not> prefix ''```json'' s"
  shows "sub_fences True s = sub_fences False s"
proof (cases s)
  case Nil
  then show ?thesis by simp
next
  case (Cons c cs)
  from assms have o1: "\<not> (True \<and> prefix ''```json'' (c # cs))" unfolding Cons by blast
  have o2: "\<not> (False \<and> prefix ''```json'' (c # cs))" by blast
  show ?thesis
  proof (cases "prefix ''```'' (c # cs)
        \<and> (drop 3 (c # cs) = [] \<or> hd (drop 3 (c # cs)) = newline)")
    case True
    then have p: "prefix ''```'' (c # cs)"
      and e: "drop 3 (c # cs) = [] \<or> hd (drop 3 (c # cs)) = newline" by blast+
    have "sub_fences True (c # cs) = sub_fences False (drop 3 (c # cs))"
      by (rule sub_fences_at_close [OF o1 p e])
    moreover have "sub_fences False (c # cs) = sub_fences False (drop 3 (c # cs))"
      by (rule sub_fences_at_close [OF o2 p e])
    ultimately show ?thesis unfolding Cons by (simp only:)
  next
    case False
    have "sub_fences True (c # cs) = c # sub_fences (c = newline) cs"
      by (rule sub_fences_at_other [OF o1 False])
    moreover have "sub_fences False (c # cs) = c # sub_fences (c = newline) cs"
      by (rule sub_fences_at_other [OF o2 False])
    ultimately show ?thesis unfolding Cons by (simp only:)
  qed
qed

lemma sub_fences_one_line:
  assumes "newline \<notin> set l"
  shows "sub_fences True l = strip_fence_line l"
proof (cases "prefix ''```json'' l")
  case True
  from assms have "newline \<notin> set (drop 7 l)" by (meson in_set_dropD)
  then have "sub_fences False (drop 7 l)
      = (if suffix ''```'' (drop 7 l) then take (length (drop 7 l) - 3) (drop 7 l) else drop 7 l)"
    by (rule sub_fences_close_line)
  moreover have "sub_fences True l = sub_fences False (drop 7 l)"
    using True by (intro sub_fences_at_open) simp
  ultimately show ?thesis using True by (simp only: strip_fence_line_def Let_def if_True)
next
  case False
  then have "sub_fences True l = sub_fences False l" by (rule sub_fences_bol_irrelevant)
  also have "\<dots> = (if suffix ''```'' l then take (length l - 3) l else l)"
    using assms by (rule sub_fences_close_line)
  finally show ?thesis using False by (simp only: strip_fence_line_def Let_def if_False)
qed

lemma sub_fences_lines:
  "sub_fences True s = join_lines (map strip_fence_line (split_lines s))"
proof (induction s rule: length_induct)
  case (1 s)
  show ?case
  proof (cases "newline \<in> set s")
    case False
    then show ?thesis by (simp add: split_lines_line sub_fences_one_line)
  next
    case True
    then obtain l rest where s: "s = l @ newline # rest" and nl: "newline \<notin> set l"
      by (auto dest: split_list_first)
    have "length rest < length s" unfolding s by simp
    with 1 have ih: "sub_fences True rest = join_lines (map strip_fence_line (split_lines rest))"
      by blast
    have "sub_fences True s = sub_fences True l @ newline # sub_fences True rest"
      unfolding s using nl by (rule sub_fences_linewise)
    also have "\<dots> = strip_fence_line l
        @ newline # join_lines (map strip_fence_line (split_lines rest))"
      by (simp only: sub_fences_one_line [OF nl] ih)
    also have "\<dots> = join_lines (map strip_fence_line (split_lines s))"
      unfolding s split_lines_first [OF nl]
      by (simp add: join_lines_Cons split_lines_nonempty)
    finally show ?thesis .
  qed
qed

lemma split_lines_append:
  "split_lines (s @ newline # rest) = split_lines s @ split_lines rest"
proof (induction s)
  case Nil
  show ?case by simp
next
  case (Cons c cs)
  obtain l ls where sl: "split_lines cs = l # ls"
    using split_lines_nonempty [of cs] by (cases "split_lines cs") auto
  show ?case using Cons by (simp add: sl)
qed

lemma join_lines_append:
  "xs \<noteq> [] \<Longrightarrow> ys \<noteq> [] \<Longrightarrow>
   join_lines (xs @ ys) = join_lines xs @ newline # join_lines ys"
proof (induction xs)
  case Nil
  then show ?case by simp
next
  case (Cons x xs)
  show ?case
  proof (cases "xs = []")
    case True
    with Cons.prems show ?thesis by (simp add: join_lines_Cons)
  next
    case False
    with Cons show ?thesis by (simp add: join_lines_Cons)
  qed
qed

lemma sub_fences_at_newline:
  "sub_fences True (s @ newline # rest) = sub_fences True s @ newline # sub_fences True rest"
  unfolding sub_fences_lines split_lines_append
  by (simp add: join_lines_append split_lines_nonempty)

lemma py_strip_all_whitespace:
  assumes "\<forall>c \<in> set s. py_isspace c"
  shows "py_strip s = []"
proof -
  from assms have "dropWhile py_isspace s = []" unfolding dropWhile_eq_Nil_conv .
  then show ?thesis by (simp only: py_strip_def rev.simps dropWhile.simps)
qed

lemma py_strip_whitespace_pad:
  assumes "\<forall>c \<in> set ws1. py_isspace c" and "\<forall>c \<in> set ws2. py_isspace c"
  shows "py_strip (ws1 @ s @ ws2) = py_strip s"
proof (cases "\<forall>c \<in> set s. py_isspace c")
  case True
  with assms have "\<forall>c \<in> set (ws1 @ s @ ws2). py_isspace c" by auto
  then have "py_strip (ws1 @ s @ ws2) = []" by (rule py_strip_all_whitespace)
  moreover from True have "py_strip s = []" by (rule py_strip_all_whitespace)
  ultimately show ?thesis by simp
next
  case False
  have front: "dropWhile py_isspace (ws1 @ s @ ws2) = dropWhile py_isspace (s @ ws2)"
    using assms(1) by (simp add: dropWhile_append2)
  from False have mid: "dropWhile py_isspace (s @ ws2) = dropWhile py_isspace s @ ws2"
    by (auto simp: dropWhile_append)
  have sp: "\<And>x. x \<in> set (rev ws2) \<Longrightarrow> py_isspace x" using assms(2) by simp
  have rear: "dropWhile py_isspace (rev ws2 @ rev (dropWhile py_isspace s))
        = dropWhile py_isspace (rev (dropWhile py_isspace s))"
    using sp by (rule dropWhile_append2)
  show ?thesis by (simp add: py_strip_def front mid rear)
qed

lemma clean_text_fence_lines:
  assumes "\<forall>c \<in> set ws1. py_isspace c" and "\<forall>c \<in> set ws2. py_isspace c"
  shows "clean_text (ws1 @ ''```json'' @ newline # body @ newline # ''```'' @ ws2)
           = py_strip (join_lines (map strip_fence_line (split_lines body)))"
proof -
  let ?m = "''```json'' @ newline # body @ newline # ''```''"
  have "py_strip (ws1 @ ?m @ ws2) = ?m"
    using assms by (intro py_strip_padded) (simp_all add: py_isspace_def)
  then have outer: "py_strip (ws1 @ ''```json'' @ newline # body @ newline # ''```'' @ ws2) = ?m"
    by simp
  have o: "sub_fences True ''```json'' = []" by code_simp
  have c: "sub_fences True ''```'' = []" by code_simp
  have "sub_fences True ?m = sub_fences True ''```json'' @ newline # sub_fences True (body @ newline # ''```'')"
    by (rule sub_fences_at_newline)
  also have "sub_fences True (body @ newline # ''```'') = sub_fences True body @ newline # sub_fences True ''```''"
    by (rule sub_fences_at_newline)
  finally have "sub_fences True ?m = [newline] @ sub_fences True body @ [newline]"
    by (simp only: o c append_Nil append_Cons append_Nil2) 
  moreover have "py_strip ([newline] @ sub_fences True body @ [newline]) = py_strip (sub_fences True body)"
    by (rule py_strip_whitespace_pad) (simp_all add: py_isspace_def newline_def)
  ultimately show ?thesis
    by (simp only: clean_text_def outer sub_fences_lines)
qed

lemma strip_fence_line_plain:
  "\<not> prefix ''```json'' l \<Longrightarrow> \<not> suffix ''```'' l \<Longrightarrow> strip_fence_line l = l"
  by (simp only: strip_fence_line_def Let_def if_False)

lemma fence_free_lines_unchanged:
  assumes "\<forall>l \<in> set (split_lines body). \<not> prefix ''```json'' l \<and> \<not> suffix ''```'' l"
  shows "join_lines (map strip_fence_line (split_lines body)) = body"
proof -
  have "map strip_fence_line (split_lines body) = split_lines body"
    using assms by (intro map_idI strip_fence_line_plain) blast+
  then show ?thesis by (simp only: join_split_lines)
qed

lemma split_lines_no_newline: "l \<in> set (split_lines s) \<Longrightarrow> newline \<notin> set l"
proof (induction s arbitrary: l)
  case Nil
  then show ?case by simp
next
  case (Cons c cs)
  obtain k ks where sp: "split_lines cs = k # ks"
    using split_lines_nonempty [of cs] by (cases "split_lines cs") auto
  show ?case
  proof (cases "c = newline")
    case True
    with Cons.prems have "l = [] \<or> l \<in> set (split_lines cs)" by simp
    with Cons.IH show ?thesis by auto
  next
    case False
    with Cons.prems sp have "l = c # k \<or> l \<in> set ks" by simp
    moreover have "newline \<notin> set k" using Cons.IH [of k] sp by simp
    moreover have "l \<in> set ks \<Longrightarrow> newline \<notin> set l" using Cons.IH [of l] sp by simp
    ultimately show ?thesis using False by auto
  qed
qed

text \<open>
  C3. The Normalizer removes the fence markers line by line. The lines of a text are its
  maximal pieces without a newline (\<open>split_lines\<close>, inverted by \<open>join_lines\<close>). On every
  line the substitution removes the marker \<^verbatim>\<open>```json\<close> where it starts the line and the
  marker \<^verbatim>\<open>```\<close> where it ends the line, and nothing else: three backquotes inside a line
  stay. So the cleaned text is the stripped text with its lines treated that way, stripped
  again. A reply made of optional whitespace, a line \<^verbatim>\<open>```json\<close>, a body, a line \<^verbatim>\<open>```\<close> and
  optional whitespace is cleaned to the body with its lines treated that way, stripped;
  a body none of whose lines starts with \<^verbatim>\<open>```json\<close> or ends with \<^verbatim>\<open>```\<close> comes out unchanged.
  When the cleaned text parses, the parsed value is returned as it is; in particular the
  fenced reply of the specification is cleaned to \<^verbatim>\<open>{"issues":[]}\<close> and yields the value
  that text parses to.
\<close>

theorem normalize_strips_fences_linewise:
  \<open>(\<forall>s. join_lines (split_lines s) = s \<and> (\<forall>l \<in> set (split_lines s). newline \<notin> set l))
   \<and> (\<forall>s. sub_fences True s = join_lines (map strip_fence_line (split_lines s)))
   \<and> clean_text raw
        = py_strip (join_lines (map strip_fence_line (split_lines (py_strip raw))))
   \<and> (\<forall>ws1 ws2 body.
        (\<forall>c \<in> set ws1. py_isspace c) \<and> (\<forall>c \<in> set ws2. py_isspace c)
        \<longrightarrow> clean_text (ws1 @ ''```json'' @ newline # body @ newline # ''```'' @ ws2)
              = py_strip (join_lines (map strip_fence_line (split_lines body))))
   \<and> (\<forall>body.
        (\<forall>l \<in> set (split_lines body). \<not> prefix ''```json'' l \<and> \<not> suffix ''```'' l)
        \<longrightarrow> join_lines (map strip_fence_line (split_lines body)) = body)
   \<and> (\<forall>v. loads (clean_text raw) = Inr v \<longrightarrow> normalize loads raw pillar = Inr v)
   \<and> clean_text ''```json\<newline>{"issues":[]}\<newline>```'' = ''{"issues":[]}''
   \<and> (loads ''{"issues":[]}'' = Inr (JObj [(''issues'', JArr [])]) \<longrightarrow>
        normalize loads ''```json\<newline>{"issues":[]}\<newline>```'' pillar
          = Inr (JObj [(''issues'', JArr [])]))\<close>
proof -
  have ex: \<open>clean_text ''```json\<newline>{"issues":[]}\<newline>```'' = ''{"issues":[]}''\<close>
    by code_simp
  have pass: "\<And>r v. loads (clean_text r) = Inr v \<Longrightarrow> normalize loads r pillar = Inr v"
    by (simp add: normalize_def)
  have a: "\<forall>s. join_lines (split_lines s) = s \<and> (\<forall>l \<in> set (split_lines s). newline \<notin> set l)"
    by (intro allI conjI ballI join_split_lines split_lines_no_newline)
  have b: "\<forall>s. sub_fences True s = join_lines (map strip_fence_line (split_lines s))"
    by (intro allI sub_fences_lines)
  have c: "clean_text raw
        = py_strip (join_lines (map strip_fence_line (split_lines (py_strip raw))))"
    by (simp only: clean_text_def sub_fences_lines)
  have d: \<open>\<forall>ws1 ws2 body.
        (\<forall>c \<in> set ws1. py_isspace c) \<and> (\<forall>c \<in> set ws2. py_isspace c)
        \<longrightarrow> clean_text (ws1 @ ''```json'' @ newline # body @ newline # ''```'' @ ws2)
              = py_strip (join_lines (map strip_fence_line (split_lines body)))\<close>
    by (intro allI impI clean_text_fence_lines) (erule conjunct1, erule conjunct2)
  have e: \<open>\<forall>body.
        (\<forall>l \<in> set (split_lines body). \<not> prefix ''```json'' l \<and> \<not> suffix ''```'' l)
        \<longrightarrow> join_lines (map strip_fence_line (split_lines body)) = body\<close>
    by (intro allI impI fence_free_lines_unchanged)
  have f: "\<forall>v. loads (clean_text raw) = Inr v \<longrightarrow> normalize loads raw pillar = Inr v"
    by (intro allI impI pass)
  have g: \<open>loads ''{"issues":[]}'' = Inr (JObj [(''issues'', JArr [])]) \<longrightarrow>
        normalize loads ''```json\<newline>{"issues":[]}\<newline>```'' pillar
          = Inr (JObj [(''issues'', JArr [])])\<close>
  proof
    assume h: \<open>loads ''{"issues":[]}'' = Inr (JObj [(''issues'', JArr [])])\<close>
    have \<open>loads (clean_text ''```json\<newline>{"issues":[]}\<newline>```'')
            = Inr (JObj [(''issues'', JArr [])])\<close>
      unfolding ex by (rule h)
    then show \<open>normalize loads ''```json\<newline>{"issues":[]}\<newline>```'' pillar
          = Inr (JObj [(''issues'', JArr [])])\<close>
      by (rule pass)
  qed
  show ?thesis
    apply (intro conjI)
           apply (rule a)
          apply (rule b)
         apply (rule c)
        apply (rule d)
       apply (rule e)
      apply (rule f)
     apply (rule ex)
    apply (rule g)
    done
qed

theorem normalize_strips_fences_linewise_witness:
  \<open>normalize sample_loads ''```json\<newline>{"issues":[]}\<newline>```'' ''Security''
     = Inr (JObj [(''issues'', JArr [])])
   \<and> clean_text (''  '' @ ''```json'' @ newline
          # ''{"issues":["run ```terraform plan``` first"]}'' @ newline # ''```'' @ ''\<newline>'')
       = ''{"issues":["run ```terraform plan``` first"]}''
   \<and> sub_fences True ''x```json y``` z\<newline>```json[]```''
       = ''x```json y``` z\<newline>[]''
   \<and> split_lines ''x```json y``` z\<newline>```json[]```''
       = [''x```json y``` z'', ''```json[]```'']
   \<and> newline \<notin> set ''```json[]```''
   \<and> normalize sample_loads ''[]'' ''Security'' = Inr (JArr [])\<close>
proof -
  let ?body = \<open>''{"issues":["run ```terraform plan``` first"]}''\<close>
  let ?two = \<open>''x```json y``` z\<newline>```json[]```''\<close>
  have l: \<open>sample_loads ''{"issues":[]}'' = Inr (JObj [(''issues'', JArr [])])\<close>
    by (simp add: sample_loads_def)
  have sp: "(\<forall>c \<in> set ''  ''. py_isspace c) \<and> (\<forall>c \<in> set ''\<newline>''. py_isspace c)"
    by (simp add: py_isspace_def)
  have free: \<open>\<forall>l \<in> set (split_lines ?body). \<not> prefix ''```json'' l \<and> \<not> suffix ''```'' l\<close>
    by code_simp
  have st: \<open>py_strip ?body = ?body\<close> by code_simp
  have lines: \<open>split_lines ?two = [''x```json y``` z'', ''```json[]```'']\<close> by code_simp
  have treated: \<open>join_lines (map strip_fence_line [''x```json y``` z'', ''```json[]```''])
      = ''x```json y``` z\<newline>[]''\<close> by code_simp
  have mem: \<open>''```json[]```'' \<in> set (split_lines ?two)\<close> by (simp only: lines) simp
  have c2: "clean_text ''[]'' = ''[]''" by code_simp
  have l2: "sample_loads (clean_text ''[]'') = Inr (JArr [])"
    unfolding c2 by (simp add: sample_loads_def)
  note t = normalize_strips_fences_linewise [of "''[]''" sample_loads "''Security''"]
  note A = t [THEN conjunct2, THEN conjunct2, THEN conjunct2, THEN conjunct2, THEN conjunct2,
      THEN conjunct2, THEN conjunct2, THEN mp, OF l]
  note B = t [THEN conjunct2, THEN conjunct2, THEN conjunct2, THEN conjunct1,
      THEN spec, THEN spec, THEN spec, THEN mp, OF sp]
  note C = t [THEN conjunct2, THEN conjunct2, THEN conjunct2, THEN conjunct2, THEN conjunct1,
      THEN spec, THEN mp, OF free]
  note D = t [THEN conjunct2, THEN conjunct1, THEN spec, of ?two]
  note E = t [THEN conjunct1, THEN spec, THEN conjunct2, THEN bspec, OF mem]
  note F = t [THEN conjunct2, THEN conjunct2, THEN conjunct2, THEN conjunct2, THEN conjunct2,
      THEN conjunct1, THEN spec, THEN mp, OF l2]
  show ?thesis
    by (intro conjI) (rule A, simp only: B C st, simp only: D lines treated, rule lines,
        rule E, rule F)
qed

section \<open>Properties of the Prompt Loader\<close>

lemma py_replace_char:
  "py_replace [a] [b] s = map (\<lambda>c. if c = a then b else c) s"
  by (induction s) auto

lemma py_replace_absent:
  "old \<noteq> [] \<Longrightarrow> \<not> sublist old s \<Longrightarrow> py_replace old new s = s"
proof (induction s)
  case Nil
  then show ?case by simp
next
  case (Cons c cs)
  from Cons.prems(2) have "\<not> prefix old (c # cs)" and "\<not> sublist old cs"
    by (auto simp: sublist_Cons_right)
  with Cons show ?case by simp
qed

lemma py_replace_at_prefix:
  "old \<noteq> [] \<Longrightarrow> py_replace old new (old @ rest) = new @ py_replace old new rest"
  by (cases old) simp_all

lemma no_straddle:
  assumes "prefix (x # q) (c # pre @ x # q @ rest)" and "x \<notin> set q"
  shows "prefix (x # q) (c # pre)"
proof -
  from assms(1) have cx: "x = c" and "prefix q (pre @ x # (q @ rest))" by auto
  from this(2) assms(2) have "prefix q pre" by (rule prefix_before_sep)
  with cx show ?thesis by auto
qed

lemma py_replace_first_occurrence:
  assumes "x \<notin> set q" and "\<not> sublist (x # q) pre"
  shows "py_replace (x # q) new (pre @ (x # q) @ rest) = pre @ new @ py_replace (x # q) new rest"
  using assms(2)
proof (induction pre)
  case Nil
  show ?case using py_replace_at_prefix [of "x # q" new rest] by simp
next
  case (Cons c pre)
  from Cons.prems have np: "\<not> prefix (x # q) (c # pre)" and ns: "\<not> sublist (x # q) pre"
    by (auto simp: sublist_Cons_right)
  have "\<not> prefix (x # q) (c # pre @ x # q @ rest)"
    using no_straddle [OF _ assms(1)] np by blast
  then have f: "prefix (x # q) (c # pre @ x # q @ rest) = False" by blast
  have "py_replace (x # q) new ((c # pre) @ (x # q) @ rest)
               = c # py_replace (x # q) new (pre @ (x # q) @ rest)"
    by (simp only: append_Cons py_replace.simps f list.simps if_False)
  with Cons.IH [OF ns] show ?case by (simp only: append_Cons)
qed

lemma placeholder_first_occurrence:
  "\<not> sublist ''{code}'' pre \<Longrightarrow>
   py_replace ''{code}'' new (pre @ ''{code}'' @ rest) = pre @ new @ py_replace ''{code}'' new rest"
  using py_replace_first_occurrence [of "CHR ''{''" "''code}''" pre new rest] by simp

lemma placeholder_absent:
  "\<not> sublist ''{code}'' s \<Longrightarrow> py_replace ''{code}'' new s = s"
  by (rule py_replace_absent) simp_all

lemma repr_security_path: "py_repr ''prompts/security.txt'' = quoted ''prompts/security.txt''"
  by code_simp

lemma six_paths:
  "map prompt_path pillars =
     [''prompts/operational_excellence.txt'', ''prompts/security.txt'',
      ''prompts/reliability.txt'', ''prompts/performance_efficiency.txt'',
      ''prompts/cost_optimization.txt'', ''prompts/sustainability.txt'']"
  by code_simp

text \<open>
  C7, as amended. The template is resolved by the normalized category name: the file is
  \<^verbatim>\<open>os.path.join("prompts", name + ".txt")\<close> where \<open>name\<close> is the category lowercased with
  every space replaced by an underscore; for the six pillars these are the six paths listed.
  When reading that file raises, the Prompt Loader fails with the same exception (with
  \<^verbatim>\<open>FileNotFoundError\<close> when the file does not exist). Otherwise the prompt is the template
  in which every occurrence of the placeholder \<^verbatim>\<open>{code}\<close> is replaced by the subject text,
  from left to right: up to and including the first occurrence the template is kept and
  the occurrence replaced, and the rest is treated in the same way; a template without the
  placeholder is returned unchanged. So a template with exactly one occurrence gets the
  subject text at that occurrence.
\<close>

theorem load_prompt_replaces_every_occurrence:
  "prompt_path pillar =
     os_path_join ''prompts''
       (map (\<lambda>c. if c = CHR '' '' then CHR ''_'' else c) (map lower_char pillar) @ ''.txt'')
   \<and> map prompt_path pillars =
       [''prompts/operational_excellence.txt'', ''prompts/security.txt'',
        ''prompts/reliability.txt'', ''prompts/performance_efficiency.txt'',
        ''prompts/cost_optimization.txt'', ''prompts/sustainability.txt'']
   \<and> (\<forall>e. read_text env (prompt_path pillar) = Inl e \<longrightarrow> load_prompt env pillar code = Inl e)
   \<and> (\<forall>template. read_text env (prompt_path pillar) = Inr template \<longrightarrow>
         load_prompt env pillar code = Inr (py_replace ''{code}'' code template))
   \<and> (\<forall>pre rest. \<not> sublist ''{code}'' pre \<longrightarrow>
         py_replace ''{code}'' code (pre @ ''{code}'' @ rest)
           = pre @ code @ py_replace ''{code}'' code rest)
   \<and> (\<forall>s. \<not> sublist ''{code}'' s \<longrightarrow> py_replace ''{code}'' code s = s)"
proof -
  have p: "prompt_path pillar =
     os_path_join ''prompts''
       (map (\<lambda>c. if c = CHR '' '' then CHR ''_'' else c) (map lower_char pillar) @ ''.txt'')"
    unfolding prompt_path_def py_lower_def
    using py_replace_char [of "CHR '' ''" "CHR ''_''" "map lower_char pillar"] by simp
  have f: "\<forall>e. read_text env (prompt_path pillar) = Inl e \<longrightarrow> load_prompt env pillar code = Inl e"
    by (simp add: load_prompt_def)
  have s: "\<forall>template. read_text env (prompt_path pillar) = Inr template \<longrightarrow>
         load_prompt env pillar code = Inr (py_replace ''{code}'' code template)"
    by (simp add: load_prompt_def)
  have o: "\<forall>pre rest. \<not> sublist ''{code}'' pre \<longrightarrow>
         py_replace ''{code}'' code (pre @ ''{code}'' @ rest)
           = pre @ code @ py_replace ''{code}'' code rest"
    by (intro allI impI placeholder_first_occurrence)
  have a: "\<forall>s. \<not> sublist ''{code}'' s \<longrightarrow> py_replace ''{code}'' code s = s"
    by (intro allI impI placeholder_absent)
  show ?thesis
    apply (intro conjI)
         apply (rule p)
        apply (rule six_paths)
       apply (rule f)
      apply (rule s)
     apply (rule o)
    apply (rule a)
    done
qed

theorem load_prompt_replaces_every_occurrence_witness:
  "load_prompt (sample_env [(''prompts/security.txt'', ''Review {code} now'')] []) ''Security'' ''x = 1''
     = Inr ''Review x = 1 now''
   \<and> load_prompt (sample_env [] []) ''Security'' ''x = 1''
     = Inl (FileNotFoundError (''[Errno 2] No such file or directory: '' @ quoted ''prompts/security.txt''))"
proof -
  let ?env = "sample_env [(''prompts/security.txt'', ''Review {code} now'')] []"
  have pp: "prompt_path ''Security'' = ''prompts/security.txt''" by code_simp
  have r: "read_text ?env (prompt_path ''Security'') = Inr ''Review {code} now''"
    unfolding pp by (simp add: sample_env_def sample_files_def repr_security_path)
  have n: "read_text (sample_env [] []) (prompt_path ''Security'')
     = Inl (FileNotFoundError (''[Errno 2] No such file or directory: '' @ quoted ''prompts/security.txt''))"
    unfolding pp by (simp add: sample_env_def sample_files_def repr_security_path)
  have ns1: "\<not> sublist ''{code}'' ''Review ''" by code_simp
  have ns2: "\<not> sublist ''{code}'' '' now''" by code_simp
  note t1 = load_prompt_replaces_every_occurrence [of "''Security''" ?env "''x = 1''"]
  note t2 = load_prompt_replaces_every_occurrence [of "''Security''" "sample_env [] []" "''x = 1''"]
  note A = t1 [THEN conjunct2, THEN conjunct2, THEN conjunct2, THEN conjunct1, THEN spec, THEN mp, OF r]
  note B = t1 [THEN conjunct2, THEN conjunct2, THEN conjunct2, THEN conjunct2, THEN conjunct1,
      THEN spec, THEN spec, THEN mp, OF ns1, of "'' now''"]
  note C = t1 [THEN conjunct2, THEN conjunct2, THEN conjunct2, THEN conjunct2, THEN conjunct2,
      THEN spec, THEN mp, OF ns2]
  note D = t2 [THEN conjunct2, THEN conjunct2, THEN conjunct1, THEN spec, THEN mp, OF n]
  have k: "py_replace ''{code}'' ''x = 1'' ''Review {code} now'' = ''Review x = 1 now''"
    using B C by simp
  have "load_prompt ?env ''Security'' ''x = 1'' = Inr ''Review x = 1 now''"
    unfolding A k ..
  then show ?thesis using D by (intro conjI)
qed

text \<open>
  C7 as stated fails: with the template \<^verbatim>\<open>A {code} B {code}\<close> the program replaces both
  occurrences, where the substitution into a single occurrence keeps the second.
\<close>

theorem load_prompt_not_single_occurrence:
  "load_prompt (sample_env [(''prompts/security.txt'', ''A {code} B {code}'')] []) ''Security'' ''x''
     = Inr ''A x B x''
   \<and> spec_substitute_single ''{code}'' ''x'' ''A {code} B {code}'' = ''A x B {code}''"
proof -
  have pp: "prompt_path ''Security'' = ''prompts/security.txt''" by code_simp
  have a: "py_replace ''{code}'' ''x'' ''A {code} B {code}'' = ''A x B x''" by code_simp
  have b: "spec_substitute_single ''{code}'' ''x'' ''A {code} B {code}'' = ''A x B {code}''"
    by code_simp
  have "load_prompt (sample_env [(''prompts/security.txt'', ''A {code} B {code}'')] []) ''Security'' ''x''
     = Inr ''A x B x''"
    unfolding load_prompt_def pp by (simp add: sample_env_def sample_files_def a)
  with b show ?thesis by (intro conjI)
qed

section \<open>The Orchestrator as a sequential run over text units\<close>

lemma chunk_text_default:
  "chunk_text content default_max_chars =
     Inr (map (\<lambda>k. take 2000 (drop (k * 2000) content)) [0..<(length content + 1999) div 2000])"
  using chunk_text_map [of 2000 content] by (simp add: default_max_chars_def add.commute)

lemma chunk_text_chunks_of: "chunk_text content default_max_chars = Inr (chunks_of content)"
  by (simp add: chunks_of_def chunk_text_default)

lemma chunks_of_windows:
  "chunks_of content =
     map (\<lambda>k. take 2000 (drop (k * 2000) content)) [0..<(length content + 1999) div 2000]"
  by (simp add: chunks_of_def chunk_text_default)

lemma length_chunks_of: "length (chunks_of content) = (length content + 1999) div 2000"
  by (simp add: chunks_of_windows)



lemma chunks_of_3500:
  assumes "length content = 3500"
  shows "chunks_of content = [take 2000 content, drop 2000 content]"
proof -
  have "(length content + 1999) div 2000 = 2" using assms by simp
  then have "[0..<(length content + 1999) div 2000] = [0, 1]"
    by (simp add: upt_rec)
  then show ?thesis unfolding chunks_of_windows using assms by simp
qed

lemma units_of_map:
  "units_of content pillar =
     map (\<lambda>c. (c, pillar)) (if 2000 < length content then chunks_of content else [content])"
  by (simp add: units_of_def)


lemma calls_analyze:
  "calls (snd (analyze_with_bedrock env arn txt pillar st)) = calls st @ [(txt, pillar)]"
  by (simp add: analyze_with_bedrock_def Let_def split: sum.splits prod.splits)

lemma analyze_missing_template:
  "read_text env (prompt_path pillar) = Inl e \<Longrightarrow>
   analyze_with_bedrock env arn unit pillar st = (Inl e, st\<lparr>calls := calls st @ [(unit, pillar)]\<rparr>)"
  by (simp add: analyze_with_bedrock_def load_prompt_def)

lemma analyze_chunks_run:
  "analyze_chunks env arn pillar cs acc st =
     (acc @ fst (run_units env arn (map (\<lambda>c. (c, pillar)) cs) st),
      snd (run_units env arn (map (\<lambda>c. (c, pillar)) cs) st))"
proof (induction cs arbitrary: acc st)
  case Nil
  show ?case by simp
next
  case (Cons c cs)
  obtain r st1 where a: "analyze_with_bedrock env arn c pillar st = (r, st1)"
    by (cases "analyze_with_bedrock env arn c pillar st")
  obtain outs st2 where b: "run_units env arn (map (\<lambda>c. (c, pillar)) cs) st1 = (outs, st2)"
    by (cases "run_units env arn (map (\<lambda>c. (c, pillar)) cs) st1")
  show ?case
    by (cases r) (simp_all add: a b Cons.IH outcome_of_def)
qed

lemma analyze_pillar_run:
  "analyze_pillar env arn content pillar fr st =
     (AList.update pillar (fst (run_units env arn (units_of content pillar) st)) fr,
      snd (run_units env arn (units_of content pillar) st))"
proof (cases "2000 < length content")
  case True
  then show ?thesis
    by (simp add: analyze_pillar_def units_of_def chunk_text_chunks_of analyze_chunks_run
          case_prod_beta)
next
  case False
  obtain r st1 where a: "analyze_with_bedrock env arn content pillar st = (r, st1)"
    by (cases "analyze_with_bedrock env arn content pillar st")
  from False show ?thesis
    by (cases r) (simp_all add: analyze_pillar_def units_of_def a outcome_of_def)
qed

lemma update_fresh: "k \<notin> fst ` set al \<Longrightarrow> AList.update k v al = al @ [(k, v)]"
  by (induction al) auto

lemma analyze_pillars_run:
  "distinct ps \<Longrightarrow> set ps \<inter> fst ` set fr = {} \<Longrightarrow>
   analyze_pillars env arn content ps fr st =
     (fr @ fst (run_pillars env arn content ps st), snd (run_pillars env arn content ps st))"
proof (induction ps arbitrary: fr st)
  case Nil
  show ?case by simp
next
  case (Cons p ps)
  obtain outs st1 where a: "run_units env arn (units_of content p) st = (outs, st1)"
    by (cases "run_units env arn (units_of content p) st")
  obtain entries st2 where b: "run_pillars env arn content ps st1 = (entries, st2)"
    by (cases "run_pillars env arn content ps st1")
  from Cons.prems have fresh: "p \<notin> fst ` set fr" by auto
  from Cons.prems have d: "distinct ps" and disj: "set ps \<inter> fst ` set (fr @ [(p, outs)]) = {}"
    by auto
  have "analyze_pillars env arn content (p # ps) fr st =
          analyze_pillars env arn content ps (fr @ [(p, outs)]) st1"
    by (simp add: analyze_pillar_run a update_fresh [OF fresh])
  also have "\<dots> = ((fr @ [(p, outs)]) @ entries, st2)"
    using Cons.IH [OF d disj, of st1] by (simp add: b)
  finally show ?case by (simp add: a b)
qed

lemma distinct_pillars: "distinct pillars"
  by (simp add: pillars_def)

lemma analyze_pillars_all:
  "analyze_pillars env arn content pillars [] st = run_pillars env arn content pillars st"
  using analyze_pillars_run [OF distinct_pillars, of "[]" env arn content st] by simp

lemma length_run_units: "length (fst (run_units env arn us st)) = length us"
proof (induction us arbitrary: st)
  case Nil
  show ?case by simp
next
  case (Cons u us)
  obtain tx p where u: "u = (tx, p)" by (cases u)
  obtain r st1 where a: "analyze_with_bedrock env arn tx p st = (r, st1)"
    by (cases "analyze_with_bedrock env arn tx p st")
  show ?case using Cons.IH [of st1] by (simp add: u a case_prod_beta)
qed

lemma calls_run_units: "calls (snd (run_units env arn us st)) = calls st @ us"
proof (induction us arbitrary: st)
  case Nil
  show ?case by simp
next
  case (Cons u us)
  obtain tx p where u: "u = (tx, p)" by (cases u)
  obtain r st1 where a: "analyze_with_bedrock env arn tx p st = (r, st1)"
    by (cases "analyze_with_bedrock env arn tx p st")
  from calls_analyze [of env arn tx p st] a have c: "calls st1 = calls st @ [(tx, p)]" by simp
  show ?case using Cons.IH [of st1] by (simp add: u a c case_prod_beta)
qed

lemma run_units_append:
  "run_units env arn (us @ vs) st =
     (fst (run_units env arn us st) @ fst (run_units env arn vs (snd (run_units env arn us st))),
      snd (run_units env arn vs (snd (run_units env arn us st))))"
proof (induction us arbitrary: st)
  case Nil
  show ?case by simp
next
  case (Cons u us)
  obtain tx p where u: "u = (tx, p)" by (cases u)
  obtain r st1 where a: "analyze_with_bedrock env arn tx p st = (r, st1)"
    by (cases "analyze_with_bedrock env arn tx p st")
  show ?case using Cons.IH [of st1] by (simp add: u a case_prod_beta)
qed

lemma run_units_nth:
  assumes "k < length us"
  shows "fst (run_units env arn us st) ! k =
           outcome_of (fst (analyze_with_bedrock env arn (fst (us ! k)) (snd (us ! k))
                              (snd (run_units env arn (take k us) st))))"
proof -
  from assms have split: "us = take k us @ (us ! k) # drop (Suc k) us"
    by (simp add: id_take_nth_drop)
  obtain tx p where u: "us ! k = (tx, p)" by (cases "us ! k")
  let ?s = "snd (run_units env arn (take k us) st)"
  have len: "length (fst (run_units env arn (take k us) st)) = k"
    using assms by (simp add: length_run_units)
  have "fst (run_units env arn us st) =
          fst (run_units env arn (take k us) st)
            @ fst (run_units env arn ((us ! k) # drop (Suc k) us) ?s)"
    by (subst split) (simp add: run_units_append)
  then have "fst (run_units env arn us st) ! k =
          fst (run_units env arn ((us ! k) # drop (Suc k) us) ?s) ! 0"
    using len by (simp add: nth_append)
  also have "\<dots> = outcome_of (fst (analyze_with_bedrock env arn tx p ?s))"
    by (simp add: u case_prod_beta)
  finally show ?thesis by (simp add: u)
qed

lemma run_units_missing_template:
  assumes "read_text env (prompt_path pillar) = Inl e"
  shows "run_units env arn (map (\<lambda>c. (c, pillar)) cs) st =
           (replicate (length cs) (error_outcome e),
            st\<lparr>calls := calls st @ map (\<lambda>c. (c, pillar)) cs\<rparr>)"
proof (induction cs arbitrary: st)
  case Nil
  show ?case by simp
next
  case (Cons c cs)
  show ?case
    by (simp add: analyze_missing_template [OF assms] Cons.IH outcome_of_def)
qed

lemma keys_run_pillars: "map fst (fst (run_pillars env arn content ps st)) = ps"
  by (induction ps arbitrary: st) (simp_all add: case_prod_beta)

lemma calls_run_pillars:
  "calls (snd (run_pillars env arn content ps st)) = calls st @ concat (map (units_of content) ps)"
proof (induction ps arbitrary: st)
  case Nil
  show ?case by simp
next
  case (Cons p ps)
  obtain outs st1 where a: "run_units env arn (units_of content p) st = (outs, st1)"
    by (cases "run_units env arn (units_of content p) st")
  from calls_run_units [of env arn "units_of content p" st] a
  have c: "calls st1 = calls st @ units_of content p" by simp
  show ?case using Cons.IH [of st1] by (simp add: a c case_prod_beta)
qed

lemma lengths_run_pillars:
  "(p, outs) \<in> set (fst (run_pillars env arn content ps st)) \<Longrightarrow>
   length outs = length (units_of content p)"
proof (induction ps arbitrary: st)
  case Nil
  then show ?case by simp
next
  case (Cons q ps)
  obtain os st1 where a: "run_units env arn (units_of content q) st = (os, st1)"
    by (cases "run_units env arn (units_of content q) st")
  from length_run_units [of env arn "units_of content q" st] a
  have l: "length os = length (units_of content q)" by simp
  from Cons.prems have "(p, outs) = (q, os) \<or> (p, outs) \<in> set (fst (run_pillars env arn content ps st1))"
    by (simp add: a case_prod_beta)
  then show ?case using l Cons.IH [of st1] by auto
qed

lemma run_pillars_concat:
  "concat (map snd (fst (run_pillars env arn content ps st)))
     = fst (run_units env arn (concat (map (units_of content) ps)) st)
   \<and> snd (run_pillars env arn content ps st)
     = snd (run_units env arn (concat (map (units_of content) ps)) st)"
proof (induction ps arbitrary: st)
  case Nil
  show ?case by simp
next
  case (Cons p ps)
  obtain outs st1 where a: "run_units env arn (units_of content p) st = (outs, st1)"
    by (cases "run_units env arn (units_of content p) st")
  show ?case using Cons.IH [of st1]
    by (simp add: a case_prod_beta run_units_append)
qed



section \<open>The loops over the files and the directories\<close>



lemma one_entry:
  "distinct (map fst r) \<Longrightarrow> k \<in> fst ` set r \<Longrightarrow> length (filter (\<lambda>e. fst e = k) r) = 1"
proof (induction r)
  case Nil
  then show ?case by simp
next
  case (Cons e r)
  show ?case
  proof (cases "fst e = k")
    case True
    with Cons.prems(1) have "k \<notin> fst ` set r" by auto
    then have "filter (\<lambda>e. fst e = k) r = []" by (auto simp: filter_empty_conv)
    with True show ?thesis by simp
  next
    case False
    with Cons show ?thesis by auto
  qed
qed

lemma analyze_files_readable:
  "py_endswith f ''.tf'' \<Longrightarrow> read_text env (os_path_join d f) = Inr content \<Longrightarrow>
   analyze_files env arn d (f # fs) r st =
     analyze_files env arn d fs
       (AList.update f (fst (analyze_pillars env arn content pillars [] st)) r)
       (snd (analyze_pillars env arn content pillars [] st))"
  by (simp add: case_prod_beta)

lemma analyze_files_single:
  "py_endswith f ''.tf'' \<Longrightarrow> read_text env (os_path_join d f) = Inr content \<Longrightarrow>
   analyze_files env arn d [f] r st =
     (AList.update f (fst (analyze_pillars env arn content pillars [] st)) r,
      snd (analyze_pillars env arn content pillars [] st))"
  by (simp add: case_prod_beta)

lemma analyze_files_append:
  "analyze_files env arn d (fs @ gs) r st =
     analyze_files env arn d gs (fst (analyze_files env arn d fs r st))
       (snd (analyze_files env arn d fs r st))"
  by (induction fs arbitrary: r st) (simp_all add: case_prod_beta split: sum.splits)

lemma walk_loop_append:
  "walk_loop env arn (w @ v) r st =
     walk_loop env arn v (fst (walk_loop env arn w r st)) (snd (walk_loop env arn w r st))"
proof (induction w arbitrary: r st)
  case Nil
  show ?case by simp
next
  case (Cons t w)
  obtain d ds fs where t: "t = (d, ds, fs)" by (cases t)
  show ?case by (simp add: t case_prod_beta Cons.IH)
qed







lemma analyze_files_distinct:
  "distinct (map fst r) \<Longrightarrow> distinct (map fst (fst (analyze_files env arn d fs r st)))"
  by (induction fs arbitrary: r st) (simp_all add: case_prod_beta distinct_update split: sum.splits)

lemma walk_loop_distinct:
  "distinct (map fst r) \<Longrightarrow> distinct (map fst (fst (walk_loop env arn w r st)))"
proof (induction w arbitrary: r st)
  case Nil
  then show ?case by simp
next
  case (Cons t w)
  obtain d ds fs where t: "t = (d, ds, fs)" by (cases t)
  from Cons.IH [OF analyze_files_distinct [OF Cons.prems]] show ?case
    by (simp add: t case_prod_beta)
qed

lemma analyze_files_keeps_entry:
  "(f \<in> set fs \<Longrightarrow> isl (read_text env (os_path_join d f))) \<Longrightarrow>
   map_of (fst (analyze_files env arn d fs r st)) f = map_of r f"
proof (induction fs arbitrary: r st)
  case Nil
  show ?case by simp
next
  case (Cons g fs)
  have ih: "\<And>r st. map_of (fst (analyze_files env arn d fs r st)) f = map_of r f"
    using Cons.prems by (intro Cons.IH) simp
  show ?case
  proof (cases "g = f")
    case True
    with Cons.prems have "isl (read_text env (os_path_join d g))" by simp
    then obtain e where "read_text env (os_path_join d g) = Inl e"
      by (cases "read_text env (os_path_join d g)") auto
    then show ?thesis by (simp add: ih)
  next
    case False
    then show ?thesis
      by (simp add: ih case_prod_beta update_conv' split: sum.splits)
  qed
qed

lemma walk_loop_keeps_entry:
  "(\<And>d ds fs. (d, ds, fs) \<in> set w \<Longrightarrow> f \<in> set fs \<Longrightarrow> isl (read_text env (os_path_join d f)))
   \<Longrightarrow> map_of (fst (walk_loop env arn w r st)) f = map_of r f"
proof (induction w arbitrary: r st)
  case Nil
  show ?case by simp
next
  case (Cons t w)
  obtain d ds fs where t: "t = (d, ds, fs)" by (cases t)
  have ih: "\<And>r st. map_of (fst (walk_loop env arn w r st)) f = map_of r f"
    using Cons.prems by (intro Cons.IH) auto
  have "map_of (fst (analyze_files env arn d fs r st)) f = map_of r f"
    using Cons.prems [of d ds fs] by (intro analyze_files_keeps_entry) (simp add: t)
  then show ?case by (simp add: t case_prod_beta ih)
qed





section \<open>Facts about the examples\<close>

lemma last_prompt_path: "last (prompt_path p) = CHR ''t''"
  by (simp add: prompt_path_def os_path_join_def)

lemma sample_no_template:
  "read_text (sample_env [(''./cloned_repo/infra/aws-tf/main.tf'', content)] walk) (prompt_path p)
     = Inl (FileNotFoundError (''[Errno 2] No such file or directory: '' @ py_repr (prompt_path p)))"
proof -
  have "prompt_path p \<noteq> ''./cloned_repo/infra/aws-tf/main.tf''"
  proof
    assume "prompt_path p = ''./cloned_repo/infra/aws-tf/main.tf''"
    then have "last (prompt_path p) = CHR ''f''" by simp
    then show False by (simp add: last_prompt_path)
  qed
  then show ?thesis by (simp add: sample_env_def sample_files_def)
qed

lemma main_tf_path: "os_path_join ''./cloned_repo/infra/aws-tf'' ''main.tf'' = ''./cloned_repo/infra/aws-tf/main.tf''"
  by (simp add: os_path_join_def)

lemma main_tf_suffix: "py_endswith ''main.tf'' ''.tf''"
  unfolding py_endswith_def suffix_def by (rule exI [of _ "''main''"]) simp






section \<open>Properties of the Analysis Invoker and the Orchestrator\<close>

text \<open>
  C4, as amended. When no prompt template exists for the category (reading the template
  file raises \<open>e\<close>), \<^verbatim>\<open>analyze_with_bedrock\<close> raises \<open>e\<close> to its caller. The Orchestrator
  catches the exception at its call site and records \<^verbatim>\<open>{"error": str(e)}\<close> for the text
  unit: the category's sequence is that outcome once for a file of at most 2000
  characters and once per chunk for a longer file. No remote call is made.
\<close>

theorem missing_template_raised_then_recorded:
  assumes "read_text env (prompt_path pillar) = Inl e"
  shows "analyze_with_bedrock env arn unit pillar st
           = (Inl e, st\<lparr>calls := calls st @ [(unit, pillar)]\<rparr>)
       \<and> fst (analyze_pillar env arn content pillar fr st)
           = AList.update pillar
               (replicate (if 2000 < length content then (length content + 1999) div 2000 else 1)
                  (JObj [(''error'', JStr (py_str e))])) fr
       \<and> world (snd (analyze_pillar env arn content pillar fr st)) = world st"
proof -
  have a: "analyze_with_bedrock env arn unit pillar st
           = (Inl e, st\<lparr>calls := calls st @ [(unit, pillar)]\<rparr>)"
    using assms by (rule analyze_missing_template)
  have r: "run_units env arn (units_of content pillar) st =
      (replicate (if 2000 < length content then (length content + 1999) div 2000 else 1)
         (error_outcome e),
       st\<lparr>calls := calls st @ units_of content pillar\<rparr>)"
    unfolding units_of_map run_units_missing_template [OF assms]
    by (simp add: length_chunks_of)
  have b: "fst (analyze_pillar env arn content pillar fr st)
           = AList.update pillar
               (replicate (if 2000 < length content then (length content + 1999) div 2000 else 1)
                  (JObj [(''error'', JStr (py_str e))])) fr"
    unfolding analyze_pillar_run r by (simp add: error_outcome_def)
  have c: "world (snd (analyze_pillar env arn content pillar fr st)) = world st"
    unfolding analyze_pillar_run r by simp
  from a b c show ?thesis by (intro conjI)
qed

theorem missing_template_raised_then_recorded_witness:
  "fst (analyze_pillar (sample_env [] []) ''arn'' ''resource {}'' ''Security'' [] start)
     = [(''Security'', [JObj [(''error'',
          JStr (''[Errno 2] No such file or directory: '' @ quoted ''prompts/security.txt''))]])]"
proof -
  have pp: "prompt_path ''Security'' = ''prompts/security.txt''" by code_simp
  have n: "read_text (sample_env [] []) (prompt_path ''Security'')
     = Inl (FileNotFoundError (''[Errno 2] No such file or directory: '' @ quoted ''prompts/security.txt''))"
    unfolding pp by (simp add: sample_env_def sample_files_def repr_security_path)
  note t = missing_template_raised_then_recorded [OF n, of "''arn''" "''resource {}''" start
      "''resource {}''" "[]", THEN conjunct2, THEN conjunct1]
  show ?thesis unfolding t by simp
qed

text \<open>
  C4 as stated fails: without a template the Analysis Invoker returns no outcome; the
  exception of the Prompt Loader leaves the function.
\<close>

theorem analyze_with_bedrock_raises_missing_template:
  "fst (analyze_with_bedrock (sample_env [] []) ''arn'' ''resource {}'' ''Security'' start)
     = Inl (FileNotFoundError
              (''[Errno 2] No such file or directory: '' @ quoted ''prompts/security.txt''))"
proof -
  have pp: "prompt_path ''Security'' = ''prompts/security.txt''" by code_simp
  show ?thesis
    unfolding analyze_with_bedrock_def load_prompt_def pp
    by (simp add: sample_env_def sample_files_def repr_security_path)
qed



text \<open>
  C8. For a chunked file the Orchestrator calls the Analysis Invoker once per chunk, in
  chunk order, and the category's sequence has one outcome per chunk: the outcome at
  position \<open>k\<close> is the result of analysing chunk \<open>k\<close> in the state the loop has reached
  after the first \<open>k\<close> chunks, and it is \<^verbatim>\<open>{"error": str(e)}\<close> when that call raises \<open>e\<close>. An
  exception on one chunk does not stop the loop: every chunk is called and has its outcome.
\<close>

theorem chunk_outcomes_in_order:
  assumes "2000 < length content"
  shows "\<exists>chunks rs st'. chunk_text content default_max_chars = Inr chunks
     \<and> analyze_pillar env arn content pillar fr st = (AList.update pillar rs fr, st')
     \<and> length rs = length chunks
     \<and> calls st' = calls st @ map (\<lambda>c. (c, pillar)) chunks
     \<and> (\<forall>k<length chunks.
          rs ! k =
            (case fst (analyze_with_bedrock env arn (chunks ! k) pillar
                         (snd (analyze_chunks env arn pillar (take k chunks) [] st))) of
               Inr output \<Rightarrow> output
             | Inl e \<Rightarrow> JObj [(''error'', JStr (py_str e))]))"
proof -
  let ?cs = "chunks_of content"
  let ?us = "map (\<lambda>c. (c, pillar)) ?cs"
  let ?rs = "fst (run_units env arn ?us st)"
  let ?st = "snd (run_units env arn ?us st)"
  from assms have u: "units_of content pillar = ?us" by (simp add: units_of_def)
  have 1: "chunk_text content default_max_chars = Inr ?cs" by (rule chunk_text_chunks_of)
  have 2: "analyze_pillar env arn content pillar fr st = (AList.update pillar ?rs fr, ?st)"
    unfolding analyze_pillar_run u ..
  have 3: "length ?rs = length ?cs" by (simp add: length_run_units)
  have 4: "calls ?st = calls st @ ?us" by (rule calls_run_units)
  have 5: "\<forall>k<length ?cs.
          ?rs ! k =
            (case fst (analyze_with_bedrock env arn (?cs ! k) pillar
                         (snd (analyze_chunks env arn pillar (take k ?cs) [] st))) of
               Inr output \<Rightarrow> output
             | Inl e \<Rightarrow> JObj [(''error'', JStr (py_str e))])"
  proof (intro allI impI)
    fix k assume k: "k < length ?cs"
    then have "?rs ! k = outcome_of (fst (analyze_with_bedrock env arn (fst (?us ! k)) (snd (?us ! k))
                              (snd (run_units env arn (take k ?us) st))))"
      by (intro run_units_nth) simp
    moreover have "take k ?us = map (\<lambda>c. (c, pillar)) (take k ?cs)" by (simp add: take_map)
    moreover have "snd (analyze_chunks env arn pillar (take k ?cs) [] st)
        = snd (run_units env arn (map (\<lambda>c. (c, pillar)) (take k ?cs)) st)"
      by (simp add: analyze_chunks_run)
    ultimately show "?rs ! k =
            (case fst (analyze_with_bedrock env arn (?cs ! k) pillar
                         (snd (analyze_chunks env arn pillar (take k ?cs) [] st))) of
               Inr output \<Rightarrow> output
             | Inl e \<Rightarrow> JObj [(''error'', JStr (py_str e))])"
      using k by (simp add: outcome_of_def error_outcome_def split: sum.splits)
  qed
  from 1 2 3 4 5 show ?thesis by blast
qed

theorem chunk_outcomes_in_order_witness:
  "2000 < length (replicate 2001 (CHR ''a''))
   \<and> (\<exists>chunks rs st'. chunk_text (replicate 2001 (CHR ''a'')) default_max_chars = Inr chunks
        \<and> analyze_pillar (sample_env [] []) ''arn'' (replicate 2001 (CHR ''a'')) ''Security'' [] start
            = (AList.update ''Security'' rs [], st')
        \<and> length rs = length chunks)"
proof -
  have big: "2000 < length (replicate 2001 (CHR ''a''))" by simp
  from chunk_outcomes_in_order [OF big, where env = "sample_env [] []" and arn = "''arn''"
      and pillar = "''Security''" and fr = "[]" and st = start]
  obtain chunks rs st' where
    "chunk_text (replicate 2001 (CHR ''a'')) default_max_chars = Inr chunks"
    "analyze_pillar (sample_env [] []) ''arn'' (replicate 2001 (CHR ''a'')) ''Security'' [] start
            = (AList.update ''Security'' rs [], st')"
    "length rs = length chunks"
    by (elim exE conjE)
  then have "\<exists>chunks rs st'. chunk_text (replicate 2001 (CHR ''a'')) default_max_chars = Inr chunks
        \<and> analyze_pillar (sample_env [] []) ''arn'' (replicate 2001 (CHR ''a'')) ''Security'' [] start
            = (AList.update ''Security'' rs [], st')
        \<and> length rs = length chunks"
    by (intro exI conjI)
  with big show ?thesis by (intro conjI)
qed




text \<open>
  C9. When the target directory holds one file of 3500 characters, \<^verbatim>\<open>main\<close> cuts the
  content into the two chunks \<open>take 2000\<close> and \<open>drop 2000\<close>, makes twelve calls of the
  Analysis Invoker, two per pillar in the order of the pillars and of the chunks, and
  writes a report with one entry, under the file's name, with the six pillars as keys and
  two outcomes for each. The outcomes, read pillar by pillar, are the outcomes of the
  sequential run over the twelve units, so the outcome at a position is the outcome of the
  chunk at that position.
\<close>

theorem one_file_3500_two_outcomes_per_pillar:
  assumes "length content = 3500" and "py_endswith f ''.tf''"
    and "read_text env (os_path_join d f) = Inr content"
    and "path_exists env tf_dir" and "os_walk env tf_dir = [(d, ds, [f])]"
    and "arn = (case getenv env ''BEDROCK_INFERENCE_PROFILE_ARN'' of
                  Some v \<Rightarrow> v | None \<Rightarrow> default_arn)"
  shows "\<exists>fr st'. main env st = Some ([(f, fr)], st')
     \<and> chunk_text content default_max_chars = Inr [take 2000 content, drop 2000 content]
     \<and> map fst fr = pillars
     \<and> list_all (\<lambda>entry. length (snd entry) = 2) fr
     \<and> concat (map snd fr)
         = fst (run_units env arn
                 (concat (map (\<lambda>p. [(take 2000 content, p), (drop 2000 content, p)]) pillars)) st)
     \<and> calls st' = calls st
         @ concat (map (\<lambda>p. [(take 2000 content, p), (drop 2000 content, p)]) pillars)
     \<and> length (calls st') = length (calls st) + 12"
proof -
  let ?units = "concat (map (\<lambda>p. [(take 2000 content, p), (drop 2000 content, p)]) pillars)"
  let ?fr = "fst (run_pillars env arn content pillars st)"
  let ?st = "snd (run_pillars env arn content pillars st)"
  have cs: "chunks_of content = [take 2000 content, drop 2000 content]"
    using assms(1) by (rule chunks_of_3500)
  have u: "units_of content = (\<lambda>p. [(take 2000 content, p), (drop 2000 content, p)])"
    using assms(1) by (auto simp: units_of_def cs)
  have m: "main env st = Some (walk_loop env arn [(d, ds, [f])] [] st)"
    unfolding main_def Let_def assms(6) [symmetric] using assms(4,5) by (simp only: if_False not_True_eq_False)
  have "walk_loop env arn [(d, ds, [f])] [] st = ([(f, ?fr)], ?st)"
    by (simp add: analyze_files_single [OF assms(2,3)] analyze_pillars_all
          del: analyze_files.simps)
  with m have 1: "main env st = Some ([(f, ?fr)], ?st)" by simp
  have 2: "chunk_text content default_max_chars = Inr [take 2000 content, drop 2000 content]"
    unfolding chunk_text_chunks_of cs ..
  have 3: "map fst ?fr = pillars" by (rule keys_run_pillars)
  have 4: "list_all (\<lambda>entry. length (snd entry) = 2) ?fr"
    using lengths_run_pillars [of _ _ env arn content pillars st]
    by (auto simp: list_all_iff u)
  have 5: "concat (map snd ?fr) = fst (run_units env arn ?units st)"
    using run_pillars_concat [of env arn content pillars st] by (simp add: u)
  have 6: "calls ?st = calls st @ ?units"
    by (simp add: calls_run_pillars u)
  have 7: "length (calls ?st) = length (calls st) + 12"
    unfolding 6 by (simp add: pillars_def)
  from 1 2 3 4 5 6 7 show ?thesis by blast
qed

theorem one_file_3500_two_outcomes_per_pillar_witness:
  "\<exists>fr st'.
     main (sample_env [(''./cloned_repo/infra/aws-tf/main.tf'', replicate 3500 (CHR ''a''))]
             sample_walk) start
       = Some ([(''main.tf'', fr)], st')
     \<and> map fst fr = pillars
     \<and> list_all (\<lambda>entry. length (snd entry) = 2) fr
     \<and> length (calls st') = 12"
proof -
  let ?env = "sample_env [(''./cloned_repo/infra/aws-tf/main.tf'', replicate 3500 (CHR ''a''))]
                sample_walk"
  have l: "length (replicate 3500 (CHR ''a'')) = 3500" by simp
  have r: "read_text ?env (os_path_join ''./cloned_repo/infra/aws-tf'' ''main.tf'')
             = Inr (replicate 3500 (CHR ''a''))"
    unfolding main_tf_path by (simp add: sample_env_def sample_files_def)
  have p: "path_exists ?env tf_dir" by (simp add: sample_env_def)
  have w: "os_walk ?env tf_dir = [(''./cloned_repo/infra/aws-tf'', [], [''main.tf''])]"
    by (simp add: sample_env_def sample_walk_def)
  have a: "default_arn = (case getenv ?env ''BEDROCK_INFERENCE_PROFILE_ARN'' of
                  Some v \<Rightarrow> v | None \<Rightarrow> default_arn)"
    by (simp add: sample_env_def)
  from one_file_3500_two_outcomes_per_pillar [OF l main_tf_suffix r p w a, where st = start]
  obtain fr st' where
    "main ?env start = Some ([(''main.tf'', fr)], st')"
    "map fst fr = pillars" "list_all (\<lambda>entry. length (snd entry) = 2) fr"
    "length (calls st') = length (calls start) + 12"
    by (elim exE conjE)
  moreover from this(4) have "length (calls st') = 12" by (simp add: start_def)
  ultimately show ?thesis by (intro exI conjI)
qed

text \<open>
  C10. The report is keyed by the name of the file without its directory. When two
  directories each hold a file of the same name and both are read, the report has one
  entry under that name, and it is the report of the second file, computed in the state the
  analysis of the first file left. In any walk, the entry under the name of a file that is
  read is the report of the last walked file of that name that could be read, and it is the
  only entry under that name.
\<close>

theorem same_name_last_walked_wins:
  assumes "py_endswith f ''.tf''"
    and "read_text env (os_path_join d2 f) = Inr c2"
  shows "(\<forall>c1. read_text env (os_path_join d1 f) = Inr c1 \<longrightarrow>
           fst (walk_loop env arn [(d1, ds1, [f]), (d2, ds2, [f])] [] st)
             = [(f, fst (analyze_pillars env arn c2 pillars []
                          (snd (analyze_pillars env arn c1 pillars [] st))))])
       \<and> (f \<notin> set fs2
            \<and> (\<forall>t \<in> set w2. f \<in> set (snd (snd t)) \<longrightarrow> isl (read_text env (os_path_join (fst t) f)))
          \<longrightarrow> map_of (fst (walk_loop env arn (w1 @ [(d2, ds2, fs1 @ [f] @ fs2)] @ w2) [] st)) f
                = Some (fst (analyze_pillars env arn c2 pillars []
                         (snd (analyze_files env arn d2 fs1
                                 (fst (walk_loop env arn w1 [] st))
                                 (snd (walk_loop env arn w1 [] st))))))
              \<and> length (filter (\<lambda>e. fst e = f)
                          (fst (walk_loop env arn (w1 @ [(d2, ds2, fs1 @ [f] @ fs2)] @ w2) [] st)))
                  = 1)"
proof (intro conjI allI impI)
  fix c1 assume r1: "read_text env (os_path_join d1 f) = Inr c1"
  show "fst (walk_loop env arn [(d1, ds1, [f]), (d2, ds2, [f])] [] st)
             = [(f, fst (analyze_pillars env arn c2 pillars []
                          (snd (analyze_pillars env arn c1 pillars [] st))))]"
    by (simp add: analyze_files_single [OF assms(1) r1] analyze_files_single [OF assms(1,2)]
          del: analyze_files.simps)
next
  assume later: "f \<notin> set fs2
            \<and> (\<forall>t \<in> set w2. f \<in> set (snd (snd t)) \<longrightarrow> isl (read_text env (os_path_join (fst t) f)))"
  let ?r1 = "fst (walk_loop env arn w1 [] st)"
  let ?s1 = "snd (walk_loop env arn w1 [] st)"
  let ?r2 = "fst (analyze_files env arn d2 fs1 ?r1 ?s1)"
  let ?s2 = "snd (analyze_files env arn d2 fs1 ?r1 ?s1)"
  let ?fr = "fst (analyze_pillars env arn c2 pillars [] ?s2)"
  let ?s3 = "snd (analyze_pillars env arn c2 pillars [] ?s2)"
  let ?r3 = "AList.update f ?fr ?r2"
  let ?r4 = "fst (analyze_files env arn d2 fs2 ?r3 ?s3)"
  let ?s4 = "snd (analyze_files env arn d2 fs2 ?r3 ?s3)"
  let ?final = "fst (walk_loop env arn (w1 @ [(d2, ds2, fs1 @ [f] @ fs2)] @ w2) [] st)"
  have files: "analyze_files env arn d2 (fs1 @ f # fs2) ?r1 ?s1 = (?r4, ?s4)"
    by (simp add: analyze_files_append [of env arn d2 fs1]
        analyze_files_readable [OF assms(1,2)] del: analyze_files.simps)
  have final: "?final = fst (walk_loop env arn w2 ?r4 ?s4)"
    by (simp add: walk_loop_append files case_prod_beta)
  have "map_of ?final f = map_of ?r4 f"
    unfolding final using later by (intro walk_loop_keeps_entry) auto
  also have "\<dots> = map_of ?r3 f"
    using later by (intro analyze_files_keeps_entry) simp
  also have "\<dots> = Some ?fr" by (simp add: update_conv')
  finally show "map_of ?final f = Some ?fr" .
  then have "f \<in> fst ` set ?final" by (metis map_of_SomeD image_eqI fst_conv)
  moreover have "distinct (map fst ?final)" by (rule walk_loop_distinct) simp
  ultimately show "length (filter (\<lambda>e. fst e = f) ?final) = 1"
    by (intro one_entry)
qed

theorem same_name_last_walked_wins_witness:
  "fst (walk_loop (sample_env [(''a/main.tf'', ''one''), (''b/main.tf'', ''two'')] []) ''arn''
          [(''a'', [], [''main.tf'']), (''b'', [], [''main.tf''])] [] start)
     = [(''main.tf'',
         fst (analyze_pillars (sample_env [(''a/main.tf'', ''one''), (''b/main.tf'', ''two'')] [])
                ''arn'' ''two'' pillars []
                (snd (analyze_pillars
                        (sample_env [(''a/main.tf'', ''one''), (''b/main.tf'', ''two'')] [])
                        ''arn'' ''one'' pillars [] start))))]
   \<and> length (filter (\<lambda>e. fst e = ''main.tf'')
        (fst (walk_loop (sample_env [(''a/main.tf'', ''one''), (''b/main.tf'', ''two'')] []) ''arn''
           ([(''a'', [], [''main.tf''])] @ [(''b'', [], [] @ [''main.tf''] @ [])] @ []) [] start)))
       = 1"
proof -
  let ?env = "sample_env [(''a/main.tf'', ''one''), (''b/main.tf'', ''two'')] []"
  have r1: "read_text ?env (os_path_join ''a'' ''main.tf'') = Inr ''one''"
    by (simp add: sample_env_def sample_files_def os_path_join_def)
  have r2: "read_text ?env (os_path_join ''b'' ''main.tf'') = Inr ''two''"
    by (simp add: sample_env_def sample_files_def os_path_join_def)
  have later: "''main.tf'' \<notin> set []
     \<and> (\<forall>t \<in> set []. ''main.tf'' \<in> set (snd (snd t))
           \<longrightarrow> isl (read_text ?env (os_path_join (fst t) ''main.tf'')))"
    by simp
  note t = same_name_last_walked_wins [OF main_tf_suffix r2, where ?d1.0 = "''a''"
      and arn = "''arn''" and ?ds1.0 = "[]" and ?ds2.0 = "[]" and st = start
      and ?fs1.0 = "[]" and ?fs2.0 = "[]" and ?w1.0 = "[(''a'', [], [''main.tf''])]"
      and ?w2.0 = "[]"]
  note A = t [THEN conjunct1, THEN spec, THEN mp, OF r1]
  note B = t [THEN conjunct2, THEN mp, OF later, THEN conjunct2]
  show ?thesis by (intro conjI) (rule A, rule B)
qed

end
